theory Spec2Isabelle
  imports Complex_Main
begin

section \<open>Strings and request values\<close>

text \<open>
  A JavaScript string is a sequence of UTF-16 code units and \<open>.length\<close> counts them,
  so a string is modelled as the list of its code units. \<open>str\<close> embeds an ASCII literal.
\<close>

type_synonym jsstring = "nat list"

definition str :: "string \<Rightarrow> jsstring" where
  "str s = map of_char s"

text \<open>
  The code units that \<open>String.prototype.trim\<close> strips and that \<open>\s\<close> matches in a
  regular expression (ECMAScript WhiteSpace and LineTerminator).
\<close>

definition isWhiteSpace :: "nat \<Rightarrow> bool" where
  "isWhiteSpace c \<longleftrightarrow>
     c = 9 \<or> c = 10 \<or> c = 11 \<or> c = 12 \<or> c = 13 \<or> c = 32 \<or> c = 160 \<or> c = 5760 \<or>
     (8192 \<le> c \<and> c \<le> 8202) \<or> c = 8232 \<or> c = 8233 \<or> c = 8239 \<or> c = 8287 \<or>
     c = 12288 \<or> c = 65279"

definition trim :: "jsstring \<Rightarrow> jsstring" where
  "trim s = rev (dropWhile isWhiteSpace (rev (dropWhile isWhiteSpace s)))"

text \<open>
  A value of a parsed JSON request body, as far as the schemas of \<open>routes.ts\<close> tell values
  apart: a number for which \<open>Number.isInteger\<close> holds, any other number, a string, or
  anything else (undefined, null, a boolean, an array, an object).
\<close>

datatype jsvalue = JInt int | JFrac | JStr jsstring | JOther

datatype reqbody = NotObject | Obj jsvalue jsvalue jsvalue
  \<comment> \<open>the keys \<open>quranNumber\<close>, \<open>siparaNumber\<close>, \<open>participantName\<close>; a missing key is \<open>JOther\<close>\<close>

section \<open>The schema of a claim request (\<open>claimBodySchema\<close>)\<close>

datatype kind = InvalidType | NotInteger | TooSmall | TooBig

datatype issue = Issue string kind

text \<open>
  \<open>z.number().int().min(lo)\<close> and \<open>z.number().int().min(lo).max(hi)\<close>: the first check
  that fails gives the first issue.
\<close>

fun zod_int :: "string \<Rightarrow> int \<Rightarrow> int option \<Rightarrow> jsvalue \<Rightarrow> issue + int" where
  "zod_int f lo hi (JInt n) =
     (if n < lo then Inl (Issue f TooSmall)
      else (case hi of
              None \<Rightarrow> Inr n
            | Some h \<Rightarrow> if h < n then Inl (Issue f TooBig) else Inr n))"
| "zod_int f lo hi JFrac = Inl (Issue f NotInteger)"
| "zod_int f lo hi v = Inl (Issue f InvalidType)"

text \<open>
  \<open>z.string().min(lo).max(hi).trim()\<close>: the checks run in the order they are written, so
  both lengths are those of the string as sent, and the value is trimmed last.
\<close>

fun zod_string_trim :: "string \<Rightarrow> nat \<Rightarrow> nat \<Rightarrow> jsvalue \<Rightarrow> issue + jsstring" where
  "zod_string_trim f lo hi (JStr s) =
     (if length s < lo then Inl (Issue f TooSmall)
      else if hi < length s then Inl (Issue f TooBig)
      else Inr (trim s))"
| "zod_string_trim f lo hi v = Inl (Issue f InvalidType)"

text \<open>\<open>claimBodySchema.safeParse\<close>: \<open>Inl\<close> is \<open>parsed.error.errors[0]\<close>, \<open>Inr\<close> is \<open>parsed.data\<close>.\<close>

fun claimBodySchema :: "reqbody \<Rightarrow> issue + (int \<times> int \<times> jsstring)" where
  "claimBodySchema NotObject = Inl (Issue '''' InvalidType)"
| "claimBodySchema (Obj q s p) =
     (case zod_int ''quranNumber'' 1 None q of
        Inl e \<Rightarrow> Inl e
      | Inr quranNumber \<Rightarrow>
          (case zod_int ''siparaNumber'' 1 (Some 30) s of
             Inl e \<Rightarrow> Inl e
           | Inr siparaNumber \<Rightarrow>
               (case zod_string_trim ''participantName'' 1 100 p of
                  Inl e \<Rightarrow> Inl e
                | Inr participantName \<Rightarrow> Inr (quranNumber, siparaNumber, participantName))))"

section \<open>The tables (\<open>shared/schema.ts\<close>)\<close>

text \<open>
  The timestamp columns are left out. An \<open>integer\<close> column and a \<open>serial\<close> key hold a
  signed integer of 32 bits, and a \<open>text\<close> column a string without the character U+0000.
  The fields of a row are modelled as integers and strings; that their values are ones the
  columns hold is part of the property \<open>wellFormed\<close> below, which every database the routes
  reach has. The \<open>serial\<close> keys are drawn from one sequence per table, whose last value is
  the largest integer of 32 bits.
\<close>

definition minInt4 :: int where
  "minInt4 = - 2147483648"

definition maxInt4 :: int where
  "maxInt4 = 2147483647"

record organizer =
  organizer_id :: int
  email :: jsstring
  passwordHash :: jsstring

record khuwani =
  khuwani_id :: int
  organizerId :: int
  slug :: jsstring
  marhoomName :: jsstring
  numQurans :: int

record claim =
  claim_id :: int
  khuwaniId :: int
  quranNumber :: int
  siparaNumber :: int
  participantName :: jsstring

record database =
  organizers :: "organizer list"
  khuwanies :: "khuwani list"
  claims :: "claim list"
  organizers_seq :: int
  khuwanies_seq :: int
  claims_seq :: int

definition emptyDb :: database where
  "emptyDb = \<lparr>organizers = [], khuwanies = [], claims = [],
              organizers_seq = 1, khuwanies_seq = 1, claims_seq = 1\<rparr>"

text \<open>
  The errors a statement can raise, with the code the driver reports in \<open>err.code\<close>: a
  row that breaks a constraint of its table, a parameter that its column's type does not
  take, and a sequence that has no value left.
\<close>

datatype dberror =
    UniqueViolation
  | ForeignKeyViolation
  | NumericValueOutOfRange
  | InvalidTextRepresentation
  | CharacterNotInRepertoire
  | SequenceLimitExceeded

fun code :: "dberror \<Rightarrow> string" where
  "code UniqueViolation = ''23505''"
| "code ForeignKeyViolation = ''23503''"
| "code NumericValueOutOfRange = ''22003''"
| "code InvalidTextRepresentation = ''22P02''"
| "code CharacterNotInRepertoire = ''22021''"
| "code SequenceLimitExceeded = ''2200H''"

section \<open>The parameters of a statement\<close>

text \<open>
  The driver sends a number as the string \<open>toString\<close> gives, and the engine reads it as
  an integer of 32 bits. An integer beyond that range is refused; from \<open>10 ^ 21\<close> on the
  string is in exponent notation, which is refused as no integer at all. The statement is
  refused before it runs: no row is touched and no key is drawn.
\<close>

definition asInt4 :: "int \<Rightarrow> dberror + int" where
  "asInt4 n =
     (if minInt4 \<le> n \<and> n \<le> maxInt4 then Inr n
      else if \<bar>n\<bar> < 10 ^ 21 then Inl NumericValueOutOfRange
      else Inl InvalidTextRepresentation)"

text \<open>
  The driver sends a string in UTF-8. A surrogate code unit that is not part of a pair
  (a high surrogate and the low surrogate after it) is written as the replacement
  character U+FFFD. The engine refuses a string that holds U+0000, again before the
  statement runs.
\<close>

definition isHighSurrogate :: "nat \<Rightarrow> bool" where
  "isHighSurrogate c \<longleftrightarrow> 55296 \<le> c \<and> c \<le> 56319"

definition isLowSurrogate :: "nat \<Rightarrow> bool" where
  "isLowSurrogate c \<longleftrightarrow> 56320 \<le> c \<and> c \<le> 57343"

fun toWellFormed :: "jsstring \<Rightarrow> jsstring" where
  "toWellFormed [] = []"
| "toWellFormed [c] = (if isHighSurrogate c \<or> isLowSurrogate c then [65533] else [c])"
| "toWellFormed (c # d # cs) =
     (if isHighSurrogate c \<and> isLowSurrogate d then c # d # toWellFormed cs
      else if isHighSurrogate c \<or> isLowSurrogate c then 65533 # toWellFormed (d # cs)
      else c # toWellFormed (d # cs))"

definition asText :: "jsstring \<Rightarrow> dberror + jsstring" where
  "asText s = (if 0 \<in> set s then Inl CharacterNotInRepertoire else Inr (toWellFormed s))"

section \<open>The storage layer (\<open>server/storage.ts\<close>)\<close>

text \<open>
  A method of the storage layer returns its result as \<open>Inr\<close>, or raises the error of the
  engine, which is \<open>Inl\<close>. A method that changes the database returns the database it
  leaves as well.
\<close>

definition getOrganizerByEmail :: "database \<Rightarrow> jsstring \<Rightarrow> dberror + organizer option" where
  "getOrganizerByEmail db e =
     (case asText e of
        Inl err \<Rightarrow> Inl err
      | Inr e1 \<Rightarrow> Inr (find (\<lambda>org. email org = e1) (organizers db)))"

definition getOrganizerById :: "database \<Rightarrow> int \<Rightarrow> dberror + organizer option" where
  "getOrganizerById db i =
     (case asInt4 i of
        Inl err \<Rightarrow> Inl err
      | Inr i1 \<Rightarrow> Inr (find (\<lambda>org. organizer_id org = i1) (organizers db)))"

text \<open>
  An insert draws the next key, then checks the constraints of the table; a rejected insert
  has drawn its key all the same. When the sequence has given its last value the insert is
  refused and nothing changes.
\<close>

definition createOrganizer :: "database \<Rightarrow> jsstring \<Rightarrow> jsstring \<Rightarrow> database \<times> (dberror + organizer)" where
  "createOrganizer db e h =
     (case asText e of
        Inl err \<Rightarrow> (db, Inl err)
      | Inr e1 \<Rightarrow>
          (case asText h of
             Inl err \<Rightarrow> (db, Inl err)
           | Inr h1 \<Rightarrow>
               if maxInt4 < organizers_seq db then (db, Inl SequenceLimitExceeded)
               else
                 (let row = \<lparr>organizer_id = organizers_seq db, email = e1, passwordHash = h1\<rparr>;
                      db1 = db\<lparr>organizers_seq := organizers_seq db + 1\<rparr>
                  in if \<exists>org \<in> set (organizers db). email org = e1 then (db1, Inl UniqueViolation)
                     else (db1\<lparr>organizers := organizers db @ [row]\<rparr>, Inr row))))"

definition getKhuwaniesForOrganizer :: "database \<Rightarrow> int \<Rightarrow> dberror + khuwani list" where
  "getKhuwaniesForOrganizer db oid =
     (case asInt4 oid of
        Inl err \<Rightarrow> Inl err
      | Inr o1 \<Rightarrow> Inr (filter (\<lambda>k. organizerId k = o1) (khuwanies db)))"

definition getKhuwaniById :: "database \<Rightarrow> int \<Rightarrow> dberror + khuwani option" where
  "getKhuwaniById db i =
     (case asInt4 i of
        Inl err \<Rightarrow> Inl err
      | Inr i1 \<Rightarrow> Inr (find (\<lambda>k. khuwani_id k = i1) (khuwanies db)))"

definition getKhuwaniBySlug :: "database \<Rightarrow> jsstring \<Rightarrow> dberror + khuwani option" where
  "getKhuwaniBySlug db s =
     (case asText s of
        Inl err \<Rightarrow> Inl err
      | Inr s1 \<Rightarrow> Inr (find (\<lambda>k. slug k = s1) (khuwanies db)))"

definition createKhuwani ::
  "database \<Rightarrow> int \<Rightarrow> jsstring \<Rightarrow> jsstring \<Rightarrow> int \<Rightarrow> database \<times> (dberror + khuwani)" where
  "createKhuwani db oid sl name n =
     (case asInt4 oid of
        Inl err \<Rightarrow> (db, Inl err)
      | Inr o1 \<Rightarrow>
     (case asText sl of
        Inl err \<Rightarrow> (db, Inl err)
      | Inr sl1 \<Rightarrow>
     (case asText name of
        Inl err \<Rightarrow> (db, Inl err)
      | Inr name1 \<Rightarrow>
     (case asInt4 n of
        Inl err \<Rightarrow> (db, Inl err)
      | Inr n1 \<Rightarrow>
          if maxInt4 < khuwanies_seq db then (db, Inl SequenceLimitExceeded)
          else
            (let row = \<lparr>khuwani_id = khuwanies_seq db, organizerId = o1, slug = sl1,
                        marhoomName = name1, numQurans = n1\<rparr>;
                 db1 = db\<lparr>khuwanies_seq := khuwanies_seq db + 1\<rparr>
             in if \<exists>k \<in> set (khuwanies db). slug k = sl1 then (db1, Inl UniqueViolation)
                else if \<not> (\<exists>org \<in> set (organizers db). organizer_id org = o1)
                then (db1, Inl ForeignKeyViolation)
                else (db1\<lparr>khuwanies := khuwanies db @ [row]\<rparr>, Inr row))))))"

definition deleteKhuwani :: "database \<Rightarrow> int \<Rightarrow> dberror + database" where
  "deleteKhuwani db i =
     (case asInt4 i of
        Inl err \<Rightarrow> Inl err
      | Inr i1 \<Rightarrow>
          (let db1 = db\<lparr>claims := filter (\<lambda>c. khuwaniId c \<noteq> i1) (claims db)\<rparr>
           in Inr (db1\<lparr>khuwanies := filter (\<lambda>k. khuwani_id k \<noteq> i1) (khuwanies db1)\<rparr>)))"

definition getClaimsForKhuwani :: "database \<Rightarrow> int \<Rightarrow> dberror + claim list" where
  "getClaimsForKhuwani db kid =
     (case asInt4 kid of
        Inl err \<Rightarrow> Inl err
      | Inr kid1 \<Rightarrow> Inr (filter (\<lambda>c. khuwaniId c = kid1) (claims db)))"

text \<open>
  \<open>createClaim\<close> is the bare insert. The table's constraint \<open>unique_claim\<close> on
  (khuwaniId, quranNumber, siparaNumber) rejects a second row for a slot; the foreign key
  rejects a row of no khuwani.
\<close>

definition createClaim ::
  "database \<Rightarrow> int \<Rightarrow> int \<Rightarrow> int \<Rightarrow> jsstring \<Rightarrow> database \<times> (dberror + claim)" where
  "createClaim db kid q s p =
     (case asInt4 kid of
        Inl err \<Rightarrow> (db, Inl err)
      | Inr kid1 \<Rightarrow>
     (case asInt4 q of
        Inl err \<Rightarrow> (db, Inl err)
      | Inr q1 \<Rightarrow>
     (case asInt4 s of
        Inl err \<Rightarrow> (db, Inl err)
      | Inr s1 \<Rightarrow>
     (case asText p of
        Inl err \<Rightarrow> (db, Inl err)
      | Inr p1 \<Rightarrow>
          if maxInt4 < claims_seq db then (db, Inl SequenceLimitExceeded)
          else
            (let row = \<lparr>claim_id = claims_seq db, khuwaniId = kid1, quranNumber = q1,
                        siparaNumber = s1, participantName = p1\<rparr>;
                 db1 = db\<lparr>claims_seq := claims_seq db + 1\<rparr>
             in if \<exists>c \<in> set (claims db).
                     khuwaniId c = kid1 \<and> quranNumber c = q1 \<and> siparaNumber c = s1
                then (db1, Inl UniqueViolation)
                else if \<not> (\<exists>k \<in> set (khuwanies db). khuwani_id k = kid1)
                then (db1, Inl ForeignKeyViolation)
                else (db1\<lparr>claims := claims db @ [row]\<rparr>, Inr row))))))"

definition claimMatches :: "int \<Rightarrow> int \<Rightarrow> int \<Rightarrow> jsstring \<Rightarrow> claim \<Rightarrow> bool" where
  "claimMatches kid q s p c \<longleftrightarrow>
     khuwaniId c = kid \<and> quranNumber c = q \<and> siparaNumber c = s \<and> participantName c = p"

definition deleteClaim ::
  "database \<Rightarrow> int \<Rightarrow> int \<Rightarrow> int \<Rightarrow> jsstring \<Rightarrow> dberror + database \<times> bool" where
  "deleteClaim db kid q s p =
     (case asInt4 kid of
        Inl err \<Rightarrow> Inl err
      | Inr kid1 \<Rightarrow>
     (case asInt4 q of
        Inl err \<Rightarrow> Inl err
      | Inr q1 \<Rightarrow>
     (case asInt4 s of
        Inl err \<Rightarrow> Inl err
      | Inr s1 \<Rightarrow>
     (case asText p of
        Inl err \<Rightarrow> Inl err
      | Inr p1 \<Rightarrow>
          (let result = filter (claimMatches kid1 q1 s1 p1) (claims db)
           in Inr (db\<lparr>claims := filter (\<lambda>c. \<not> claimMatches kid1 q1 s1 p1 c) (claims db)\<rparr>,
                   0 < length result))))))"

definition deleteAllClaimsForKhuwani :: "database \<Rightarrow> int \<Rightarrow> dberror + database" where
  "deleteAllClaimsForKhuwani db kid =
     (case asInt4 kid of
        Inl err \<Rightarrow> Inl err
      | Inr kid1 \<Rightarrow> Inr (db\<lparr>claims := filter (\<lambda>c. khuwaniId c \<noteq> kid1) (claims db)\<rparr>))"

definition slugExists :: "database \<Rightarrow> jsstring \<Rightarrow> dberror + bool" where
  "slugExists db s =
     (case asText s of
        Inl err \<Rightarrow> Inl err
      | Inr s1 \<Rightarrow> Inr (find (\<lambda>k. slug k = s1) (khuwanies db) \<noteq> None))"

text \<open>
  The update computes \<open>numQurans + 1\<close> in the type of the column: at the largest integer
  of 32 bits the sum is out of range, the statement is refused and no row changes.
\<close>

definition incrementQurans :: "database \<Rightarrow> int \<Rightarrow> dberror + database" where
  "incrementQurans db kid =
     (case asInt4 kid of
        Inl err \<Rightarrow> Inl err
      | Inr kid1 \<Rightarrow>
          if \<exists>k \<in> set (khuwanies db). khuwani_id k = kid1 \<and> maxInt4 < numQurans k + 1
          then Inl NumericValueOutOfRange
          else Inr (db\<lparr>khuwanies :=
                 map (\<lambda>k. if khuwani_id k = kid1 then k\<lparr>numQurans := numQurans k + 1\<rparr> else k)
                     (khuwanies db)\<rparr>))"

section \<open>Slugs (\<open>generateSlug\<close>)\<close>

text \<open>
  \<open>toLowerCase\<close> on one code unit. The upper-case ASCII letters are mapped to lower case;
  so are the two characters beyond ASCII whose lower case has an ASCII letter in it: U+0130
  (lower case: i, U+0307) and U+212A (the Kelvin sign, lower case: k). Every other code
  unit is left as it is: its lower case, where it has one, is again beyond ASCII and is no
  white space, and \<open>generateSlug\<close> deletes such a unit in its next step either way.
\<close>

definition lowerUnit :: "nat \<Rightarrow> jsstring" where
  "lowerUnit c =
     (if 65 \<le> c \<and> c \<le> 90 then [c + 32]
      else if c = 304 then [105, 775]
      else if c = 8490 then [107]
      else [c])"

definition toLowerCase :: "jsstring \<Rightarrow> jsstring" where
  "toLowerCase s = concat (map lowerUnit s)"

definition isSlugAlnum :: "nat \<Rightarrow> bool" where
  "isSlugAlnum c \<longleftrightarrow> (97 \<le> c \<and> c \<le> 122) \<or> (48 \<le> c \<and> c \<le> 57)"

definition hyphen :: nat where
  "hyphen = 45"

definition isHyphen :: "nat \<Rightarrow> bool" where
  "isHyphen c \<longleftrightarrow> c = hyphen"

text \<open>\<open>.replace(/[^a-z0-9\s-]/g, "")\<close>\<close>

definition stripOthers :: "jsstring \<Rightarrow> jsstring" where
  "stripOthers s = filter (\<lambda>c. isSlugAlnum c \<or> isWhiteSpace c \<or> isHyphen c) s"

text \<open>
  \<open>.replace(/\s+/g, "-")\<close> and \<open>.replace(/-+/g, "-")\<close>: every maximal run of units of the
  class becomes one hyphen.
\<close>

function replaceRuns :: "(nat \<Rightarrow> bool) \<Rightarrow> jsstring \<Rightarrow> jsstring" where
  "replaceRuns P [] = []"
| "replaceRuns P (c # cs) =
     (if P c then hyphen # replaceRuns P (dropWhile P cs) else c # replaceRuns P cs)"
  by pat_completeness auto
termination
  by (relation "measure (\<lambda>(P, s). length s)") (auto simp: length_dropWhile_le less_Suc_eq_le)

text \<open>\<open>.replace(/^-|-$/g, "")\<close>: one hyphen at the start and one at the end are deleted.\<close>

definition stripEnds :: "jsstring \<Rightarrow> jsstring" where
  "stripEnds s =
     (let s1 = (case s of [] \<Rightarrow> [] | c # cs \<Rightarrow> if isHyphen c then cs else c # cs)
      in if s1 \<noteq> [] \<and> isHyphen (last s1) then butlast s1 else s1)"

definition slugBase :: "jsstring \<Rightarrow> jsstring" where
  "slugBase name = stripEnds (replaceRuns isHyphen (replaceRuns isWhiteSpace (stripOthers (toLowerCase name))))"

text \<open>
  The second argument is the random source: the string \<open>Math.random().toString(36)\<close>, which
  is \<open>0\<close>, or \<open>0.\<close> and base-36 digits after it. \<open>substring(2, 7)\<close> takes the units at the
  positions 2 to 6 that the string has.
\<close>

definition substring :: "nat \<Rightarrow> nat \<Rightarrow> jsstring \<Rightarrow> jsstring" where
  "substring i j s = take (j - i) (drop i s)"

definition generateSlug :: "jsstring \<Rightarrow> jsstring \<Rightarrow> jsstring" where
  "generateSlug name rendering =
     (let base = slugBase name;
          random = substring 2 7 rendering
      in base @ [hyphen] @ random)"

text \<open>
  What \<open>Math.random().toString(36)\<close> returns: \<open>0\<close>, or \<open>0.\<close> and one base-36 digit or
  more; the base-36 digits are the digits and the lower-case letters.
\<close>

definition isRendering :: "jsstring \<Rightarrow> bool" where
  "isRendering r \<longleftrightarrow>
     r = str ''0'' \<or> (take 2 r = str ''0.'' \<and> 2 < length r \<and> list_all isSlugAlnum (drop 2 r))"

text \<open>Two hyphens side by side somewhere in a string.\<close>

fun hyphenPair :: "jsstring \<Rightarrow> bool" where
  "hyphenPair (a # b # cs) = ((isHyphen a \<and> isHyphen b) \<or> hyphenPair (b # cs))"
| "hyphenPair cs = False"

text \<open>
  The slug as the specification words it, to compare with \<open>generateSlug\<close>: of the
  lower-cased name, the characters outside a-z, 0-9, space and hyphen are stripped, each
  run of white space becomes one hyphen, and the hyphens at the start and at the end are
  trimmed.
\<close>

definition specStrip :: "jsstring \<Rightarrow> jsstring" where
  "specStrip s = filter (\<lambda>c. isSlugAlnum c \<or> c = 32 \<or> isHyphen c) s"

definition specTrimHyphens :: "jsstring \<Rightarrow> jsstring" where
  "specTrimHyphens s = rev (dropWhile isHyphen (rev (dropWhile isHyphen s)))"

definition specSlugBase :: "jsstring \<Rightarrow> jsstring" where
  "specSlugBase name = specTrimHyphens (replaceRuns isWhiteSpace (specStrip (toLowerCase name)))"

text \<open>
  The words of a string: its maximal pieces without white space and hyphens. \<open>joinHyphen\<close>
  puts one hyphen between two words.
\<close>

definition isSeparator :: "nat \<Rightarrow> bool" where
  "isSeparator c \<longleftrightarrow> isWhiteSpace c \<or> isHyphen c"

function slugWords :: "jsstring \<Rightarrow> jsstring list" where
  "slugWords [] = []"
| "slugWords (c # cs) =
     (if isSeparator c then slugWords cs
      else takeWhile (\<lambda>x. \<not> isSeparator x) (c # cs) # slugWords (dropWhile (\<lambda>x. \<not> isSeparator x) cs))"
  by pat_completeness auto
termination
  by (relation "measure length") (auto simp: length_dropWhile_le less_Suc_eq_le)

fun joinHyphen :: "jsstring list \<Rightarrow> jsstring" where
  "joinHyphen [] = []"
| "joinHyphen [w] = w"
| "joinHyphen (w # v # ws) = w @ hyphen # joinHyphen (v # ws)"

section \<open>Responses and the session\<close>

datatype payload =
    Message string
  | ZodMessage issue
  | ClaimCreated claim
  | KhuwaniCreated khuwani

text \<open>\<open>res.status(n).json({ success, ... })\<close>; \<open>res.json\<close> alone has the status 200.\<close>

datatype response = Response (status: nat) (success: bool) (payload: payload)

text \<open>
  \<open>req.session.organizerId\<close> is \<open>None\<close> when it is not set. \<open>requireAuth\<close> goes on to the
  handler only when it is set and not 0.
\<close>

definition requireAuth ::
  "int option \<Rightarrow> database \<Rightarrow> (int \<Rightarrow> database \<times> response) \<Rightarrow> database \<times> response" where
  "requireAuth sess db next =
     (case sess of
        None \<Rightarrow> (db, Response 401 False (Message ''Not authenticated''))
      | Some oid \<Rightarrow>
          if oid = 0 then (db, Response 401 False (Message ''Not authenticated''))
          else next oid)"

section \<open>The schemas of the organizer's forms\<close>

text \<open>
  \<open>z.string().email(...)\<close> and \<open>z.string().min(n, ...)\<close>. What an e-mail address is is
  decided by the validation library; it is the parameter \<open>isEmail\<close>.
\<close>

datatype kind2 = BadType | BadEmail | TooShort | Mismatch

fun zod_email :: "(jsstring \<Rightarrow> bool) \<Rightarrow> jsvalue \<Rightarrow> kind2 + jsstring" where
  "zod_email isEmail (JStr s) = (if isEmail s then Inr s else Inl BadEmail)"
| "zod_email isEmail v = Inl BadType"

fun zod_string_min :: "nat \<Rightarrow> jsvalue \<Rightarrow> kind2 + jsstring" where
  "zod_string_min n (JStr s) = (if length s < n then Inl TooShort else Inr s)"
| "zod_string_min n v = Inl BadType"

text \<open>\<open>loginSchema\<close> on the keys \<open>email\<close> and \<open>password\<close>.\<close>

definition loginSchema ::
  "(jsstring \<Rightarrow> bool) \<Rightarrow> jsvalue \<times> jsvalue \<Rightarrow> (string \<times> kind2) + (jsstring \<times> jsstring)" where
  "loginSchema isEmail body =
     (case zod_email isEmail (fst body) of
        Inl e \<Rightarrow> Inl (''email'', e)
      | Inr em \<Rightarrow>
          (case zod_string_min 6 (snd body) of
             Inl e \<Rightarrow> Inl (''password'', e)
           | Inr pw \<Rightarrow> Inr (em, pw)))"

text \<open>
  \<open>registerSchema\<close> on the keys \<open>email\<close>, \<open>password\<close> and \<open>confirmPassword\<close>; the
  refinement that compares the two passwords comes after the three fields.
\<close>

definition registerSchema ::
  "(jsstring \<Rightarrow> bool) \<Rightarrow> jsvalue \<times> jsvalue \<times> jsvalue \<Rightarrow> (string \<times> kind2) + (jsstring \<times> jsstring)" where
  "registerSchema isEmail body =
     (case zod_email isEmail (fst body) of
        Inl e \<Rightarrow> Inl (''email'', e)
      | Inr em \<Rightarrow>
          (case zod_string_min 6 (fst (snd body)) of
             Inl e \<Rightarrow> Inl (''password'', e)
           | Inr pw \<Rightarrow>
               (case zod_string_min 6 (snd (snd body)) of
                  Inl e \<Rightarrow> Inl (''confirmPassword'', e)
                | Inr cpw \<Rightarrow>
                    if pw = cpw then Inr (em, pw) else Inl (''confirmPassword'', Mismatch))))"

text \<open>\<open>createKhuwaniFormSchema\<close> on the key \<open>marhoomName\<close>.\<close>

definition createKhuwaniFormSchema :: "jsvalue \<Rightarrow> (string \<times> kind2) + jsstring" where
  "createKhuwaniFormSchema v =
     (case zod_string_min 1 v of Inl e \<Rightarrow> Inl (''marhoomName'', e) | Inr s \<Rightarrow> Inr s)"

text \<open>The message of a failed form: the text the schema gives for the failed check.\<close>

fun formMessage :: "string \<times> kind2 \<Rightarrow> payload" where
  "formMessage (f, BadEmail) = Message ''Please enter a valid email''"
| "formMessage (f, TooShort) =
     (if f = ''password'' then Message ''Password must be at least 6 characters''
      else if f = ''confirmPassword'' then Message ''Please confirm your password''
      else Message ''Please enter the name'')"
| "formMessage (f, Mismatch) = Message ''Passwords don't match''"
| "formMessage (f, BadType) = ZodMessage (Issue f InvalidType)"

section \<open>The routes (\<open>server/routes.ts\<close>)\<close>

text \<open>
  A route takes the database, and the session and the request where it reads them, and
  returns the database it leaves and the response it sends. An error that the storage
  layer raises is caught by the \<open>catch\<close> of the route, which answers 500. The password
  hash is the parameter \<open>hash\<close> of registration and its check the parameter \<open>compare\<close> of
  login.
\<close>

definition registerRoute ::
  "(jsstring \<Rightarrow> bool) \<Rightarrow> (jsstring \<Rightarrow> jsstring) \<Rightarrow> database \<Rightarrow> int option \<Rightarrow>
   jsvalue \<times> jsvalue \<times> jsvalue \<Rightarrow> database \<times> int option \<times> response" where
  "registerRoute isEmail hash db sess body =
     (case registerSchema isEmail body of
        Inl e \<Rightarrow> (db, sess, Response 400 False (formMessage e))
      | Inr (em, pw) \<Rightarrow>
          (case getOrganizerByEmail db em of
             Inl err \<Rightarrow> (db, sess, Response 500 False (Message ''Registration failed''))
           | Inr (Some existing) \<Rightarrow>
               (db, sess, Response 400 False (Message ''An account with this email already exists''))
           | Inr None \<Rightarrow>
               (case createOrganizer db em (hash pw) of
                  (db1, Inl err) \<Rightarrow> (db1, sess, Response 500 False (Message ''Registration failed''))
                | (db1, Inr org) \<Rightarrow>
                    (db1, Some (organizer_id org), Response 200 True (Message ''Account created'')))))"

definition loginRoute ::
  "(jsstring \<Rightarrow> bool) \<Rightarrow> (jsstring \<Rightarrow> jsstring \<Rightarrow> bool) \<Rightarrow> database \<Rightarrow> int option \<Rightarrow>
   jsvalue \<times> jsvalue \<Rightarrow> int option \<times> response" where
  "loginRoute isEmail compare db sess body =
     (case loginSchema isEmail body of
        Inl e \<Rightarrow> (sess, Response 400 False (formMessage e))
      | Inr (em, pw) \<Rightarrow>
          (case getOrganizerByEmail db em of
             Inl err \<Rightarrow> (sess, Response 500 False (Message ''Login failed''))
           | Inr None \<Rightarrow> (sess, Response 401 False (Message ''Invalid email or password''))
           | Inr (Some org) \<Rightarrow>
               if \<not> compare pw (passwordHash org)
               then (sess, Response 401 False (Message ''Invalid email or password''))
               else (Some (organizer_id org), Response 200 True (Message ''Logged in''))))"

text \<open>
  The loop of the create route draws a new slug while the last one exists and fewer than
  10 redraws were made; \<open>rnd i\<close> is the random source of the draw number \<open>i\<close>.
\<close>

function slugLoop ::
  "database \<Rightarrow> jsstring \<Rightarrow> (nat \<Rightarrow> jsstring) \<Rightarrow> jsstring \<Rightarrow> nat \<Rightarrow> dberror + jsstring" where
  "slugLoop db name rnd sl attempts =
     (case slugExists db sl of
        Inl err \<Rightarrow> Inl err
      | Inr found \<Rightarrow>
          if found \<and> attempts < 10
          then slugLoop db name rnd (generateSlug name (rnd (Suc attempts))) (Suc attempts)
          else Inr sl)"
  by pat_completeness auto
termination
  by (relation "measure (\<lambda>(db, name, rnd, sl, attempts). 10 - attempts)") auto

declare slugLoop.simps [simp del]

definition createKhuwaniRoute ::
  "(nat \<Rightarrow> jsstring) \<Rightarrow> database \<Rightarrow> int option \<Rightarrow> jsvalue \<Rightarrow> database \<times> response" where
  "createKhuwaniRoute rnd db sess body =
     requireAuth sess db (\<lambda>caller.
       case createKhuwaniFormSchema body of
         Inl e \<Rightarrow> (db, Response 400 False (formMessage e))
       | Inr name \<Rightarrow>
           (case slugLoop db name rnd (generateSlug name (rnd 0)) 0 of
              Inl err \<Rightarrow> (db, Response 500 False (Message ''Failed to create khuwani''))
            | Inr sl \<Rightarrow>
                (case createKhuwani db caller sl name 1 of
                   (db1, Inl err) \<Rightarrow> (db1, Response 500 False (Message ''Failed to create khuwani''))
                 | (db1, Inr k) \<Rightarrow> (db1, Response 200 True (KhuwaniCreated k)))))"

text \<open>
  In the three routes below \<open>i\<close> is the number \<open>parseInt(req.params.id)\<close>, for a path that
  has a number in that place.
\<close>

definition deleteRoute :: "database \<Rightarrow> int option \<Rightarrow> int \<Rightarrow> database \<times> response" where
  "deleteRoute db sess i =
     requireAuth sess db (\<lambda>caller.
       case getKhuwaniById db i of
         Inl err \<Rightarrow> (db, Response 500 False (Message ''Failed to delete''))
       | Inr None \<Rightarrow> (db, Response 404 False (Message ''Khuwani not found''))
       | Inr (Some k) \<Rightarrow>
           if organizerId k \<noteq> caller
           then (db, Response 404 False (Message ''Khuwani not found''))
           else
             (case deleteKhuwani db i of
                Inl err \<Rightarrow> (db, Response 500 False (Message ''Failed to delete''))
              | Inr db1 \<Rightarrow> (db1, Response 200 True (Message ''Deleted''))))"

definition resetRoute :: "database \<Rightarrow> int option \<Rightarrow> int \<Rightarrow> database \<times> response" where
  "resetRoute db sess i =
     requireAuth sess db (\<lambda>caller.
       case getKhuwaniById db i of
         Inl err \<Rightarrow> (db, Response 500 False (Message ''Failed to reset''))
       | Inr None \<Rightarrow> (db, Response 404 False (Message ''Khuwani not found''))
       | Inr (Some k) \<Rightarrow>
           if organizerId k \<noteq> caller
           then (db, Response 404 False (Message ''Khuwani not found''))
           else
             (case deleteAllClaimsForKhuwani db i of
                Inl err \<Rightarrow> (db, Response 500 False (Message ''Failed to reset''))
              | Inr db1 \<Rightarrow> (db1, Response 200 True (Message ''Claims reset''))))"

definition addQuranRoute :: "database \<Rightarrow> int option \<Rightarrow> int \<Rightarrow> database \<times> response" where
  "addQuranRoute db sess i =
     requireAuth sess db (\<lambda>caller.
       case getKhuwaniById db i of
         Inl err \<Rightarrow> (db, Response 500 False (Message ''Failed to add Quran''))
       | Inr None \<Rightarrow> (db, Response 404 False (Message ''Khuwani not found''))
       | Inr (Some k) \<Rightarrow>
           if organizerId k \<noteq> caller
           then (db, Response 404 False (Message ''Khuwani not found''))
           else
             (case incrementQurans db i of
                Inl err \<Rightarrow> (db, Response 500 False (Message ''Failed to add Quran''))
              | Inr db1 \<Rightarrow> (db1, Response 200 True (Message ''Quran added''))))"

definition slotTakenMessage :: string where
  "slotTakenMessage =
     ''Sorry, this Sipara was just claimed by someone else. Please choose another.''"

text \<open>
  The claim route has a \<open>catch\<close> of its own around the insert: the unique violation is
  answered 409, and every other error goes on to the \<open>catch\<close> of the route.
\<close>

definition claimRoute :: "database \<Rightarrow> jsstring \<Rightarrow> reqbody \<Rightarrow> database \<times> response" where
  "claimRoute db sl body =
     (case getKhuwaniBySlug db sl of
        Inl err \<Rightarrow> (db, Response 500 False (Message ''Failed to claim sipara''))
      | Inr None \<Rightarrow> (db, Response 404 False (Message ''Khuwani not found''))
      | Inr (Some k) \<Rightarrow>
          (case claimBodySchema body of
             Inl e \<Rightarrow> (db, Response 400 False (ZodMessage e))
           | Inr (q, s, p) \<Rightarrow>
               if numQurans k < q
               then (db, Response 400 False (Message ''Invalid Quran number''))
               else
                 (case createClaim db (khuwani_id k) q s p of
                    (db1, Inr c) \<Rightarrow> (db1, Response 200 True (ClaimCreated c))
                  | (db1, Inl err) \<Rightarrow>
                      if code err = ''23505''
                      then (db1, Response 409 False (Message slotTakenMessage))
                      else (db1, Response 500 False (Message ''Failed to claim sipara'')))))"

definition releaseFailedMessage :: string where
  "releaseFailedMessage = ''Could not release this Sipara. You may not have claimed it.''"

definition unclaimRoute :: "database \<Rightarrow> jsstring \<Rightarrow> reqbody \<Rightarrow> database \<times> response" where
  "unclaimRoute db sl body =
     (case getKhuwaniBySlug db sl of
        Inl err \<Rightarrow> (db, Response 500 False (Message ''Failed to release sipara''))
      | Inr None \<Rightarrow> (db, Response 404 False (Message ''Khuwani not found''))
      | Inr (Some k) \<Rightarrow>
          (case claimBodySchema body of
             Inl e \<Rightarrow> (db, Response 400 False (ZodMessage e))
           | Inr (q, s, p) \<Rightarrow>
               (case deleteClaim db (khuwani_id k) q s p of
                  Inl err \<Rightarrow> (db, Response 500 False (Message ''Failed to release sipara''))
                | Inr (db1, deleted) \<Rightarrow>
                    if \<not> deleted then (db1, Response 400 False (Message releaseFailedMessage))
                    else (db1, Response 200 True (Message ''Sipara released'')))))"

section \<open>The states the routes reach\<close>

text \<open>
  The database starts empty and changes by the requests that write to it, one after the
  other. The session of a request is left open, so that every request a logged-in browser
  can send is among them. Login, logout and the routes that only read leave the database
  as it is.
\<close>

inductive reachable :: "database \<Rightarrow> bool" where
  reach_empty: "reachable emptyDb"
| reach_register: "reachable db \<Longrightarrow> reachable (fst (registerRoute isEmail hash db sess body3))"
| reach_create: "reachable db \<Longrightarrow> reachable (fst (createKhuwaniRoute rnd db sess v))"
| reach_delete: "reachable db \<Longrightarrow> reachable (fst (deleteRoute db sess i))"
| reach_reset: "reachable db \<Longrightarrow> reachable (fst (resetRoute db sess i))"
| reach_addQuran: "reachable db \<Longrightarrow> reachable (fst (addQuranRoute db sess i))"
| reach_claim: "reachable db \<Longrightarrow> reachable (fst (claimRoute db sl body))"
| reach_unclaim: "reachable db \<Longrightarrow> reachable (fst (unclaimRoute db sl body))"

text \<open>The slot of a claim, and the constraint \<open>unique_claim\<close> as a property of a table.\<close>

definition slotOf :: "claim \<Rightarrow> int \<times> int \<times> int" where
  "slotOf c = (khuwaniId c, quranNumber c, siparaNumber c)"

definition claimsOnSlot :: "database \<Rightarrow> int \<times> int \<times> int \<Rightarrow> claim list" where
  "claimsOnSlot db sl = filter (\<lambda>c. slotOf c = sl) (claims db)"

definition unique_claim :: "database \<Rightarrow> bool" where
  "unique_claim db \<longleftrightarrow> distinct (map slotOf (claims db))"

section \<open>The progress figures of the two views\<close>

text \<open>
  A JavaScript number is a binary64 floating-point value. The numbers of the two views are
  counts, the quotient of two counts and its product with 100: none is negative, and all
  are far inside the range of the normal binary64 values. So a number is modelled by the
  rational it is, and a division or multiplication by the exact result rounded to the
  nearest value with a mantissa of 53 bits, a tie going to the even mantissa; the bounds of
  the exponent are not modelled.
\<close>

text \<open>The nearest integer, a tie going to the even one.\<close>

definition roundEven :: "rat \<Rightarrow> int" where
  "roundEven y =
     (let f = \<lfloor>y\<rfloor>; r = y - of_int f
      in if r < 1 / 2 then f else if 1 / 2 < r then f + 1 else if even f then f else f + 1)"

text \<open>
  \<open>ulpRound x ulp\<close> brings \<open>x\<close> between \<open>2 ^ 52\<close> and \<open>2 ^ 53\<close> by halving or doubling,
  the unit \<open>ulp\<close> going the other way, and rounds it there: for \<open>ulp = 1\<close> the result is the
  binary64 value nearest to \<open>x\<close>.
\<close>

function ulpRound :: "rat \<Rightarrow> rat \<Rightarrow> rat" where
  "ulpRound x ulp =
     (if x \<le> 0 then 0
      else if 2 ^ 53 \<le> x then ulpRound (x / 2) (ulp * 2)
      else if x < 2 ^ 52 then ulpRound (x * 2) (ulp / 2)
      else of_int (roundEven x) * ulp)"
  by pat_completeness auto
termination
proof (relation "measure (\<lambda>(x, ulp). if 2 ^ 53 \<le> x then nat \<lceil>x\<rceil> else nat \<lceil>2 ^ 53 / x\<rceil>)")
  show "wf (measure (\<lambda>(x, ulp). if 2 ^ 53 \<le> x then nat \<lceil>x\<rceil> else nat \<lceil>2 ^ 53 / x\<rceil>))"
    by (rule wf_measure)
next
  fix x ulp :: rat
  define B :: rat where "B = 2 ^ 53"
  have B: "2 < B" by (simp add: B_def)
  assume "\<not> x \<le> 0" and "2 ^ 53 \<le> x"
  then have big: "B \<le> x" by (simp add: B_def)
  have "(if B \<le> x / 2 then nat \<lceil>x / 2\<rceil> else nat \<lceil>B / (x / 2)\<rceil>) < nat \<lceil>x\<rceil>"
  proof (cases "B \<le> x / 2")
    case True
    from big B have "x / 2 \<le> x - 1" by simp
    then have "\<lceil>x / 2\<rceil> \<le> \<lceil>x - 1\<rceil>" by (rule ceiling_mono)
    then have "\<lceil>x / 2\<rceil> < \<lceil>x\<rceil>" by simp
    moreover from big B have "0 < \<lceil>x\<rceil>" by (simp add: less_ceiling_iff)
    ultimately have "nat \<lceil>x / 2\<rceil> < nat \<lceil>x\<rceil>" by linarith
    with True show ?thesis by (simp only: if_True)
  next
    case False
    from big B have "B / (x / 2) \<le> 2" by (simp add: field_simps)
    then have "\<lceil>B / (x / 2)\<rceil> \<le> 2" by (simp add: ceiling_le_iff)
    moreover from big B have "2 < \<lceil>x\<rceil>" by (simp add: less_ceiling_iff)
    ultimately have "nat \<lceil>B / (x / 2)\<rceil> < nat \<lceil>x\<rceil>" by linarith
    with False show ?thesis by (simp only: if_False)
  qed
  with big show "((x / 2, ulp * 2), (x, ulp)) \<in>
      measure (\<lambda>(x, ulp). if 2 ^ 53 \<le> x then nat \<lceil>x\<rceil> else nat \<lceil>2 ^ 53 / x\<rceil>)"
    unfolding B_def in_measure split_conv by (simp only: if_True)
next
  fix x ulp :: rat
  define B :: rat where "B = 2 ^ 53"
  have B2: "B / 2 = 2 ^ 52" by (simp add: B_def)
  assume pos: "\<not> x \<le> 0" and nb: "\<not> 2 ^ 53 \<le> x" and "x < 2 ^ 52"
  then have small: "x < B / 2" by (simp only: B2)
  then have x2: "\<not> B \<le> x * 2" by simp
  define y where "y = B / (x * 2)"
  from pos small have y: "1 < y" by (simp add: y_def field_simps)
  from pos have e2: "B / x = 2 * y" by (simp add: y_def field_simps)
  from y have "y + 1 \<le> 2 * y" by simp
  then have "\<lceil>y + 1\<rceil> \<le> \<lceil>2 * y\<rceil>" by (rule ceiling_mono)
  then have "\<lceil>y\<rceil> < \<lceil>2 * y\<rceil>" by simp
  moreover from y have "0 < \<lceil>2 * y\<rceil>" by (simp add: less_ceiling_iff)
  ultimately have "nat \<lceil>y\<rceil> < nat \<lceil>2 * y\<rceil>" by linarith
  then have "nat \<lceil>B / (x * 2)\<rceil> < nat \<lceil>B / x\<rceil>" by (simp only: y_def [symmetric] e2)
  with x2 nb show "((x * 2, ulp / 2), (x, ulp)) \<in>
      measure (\<lambda>(x, ulp). if 2 ^ 53 \<le> x then nat \<lceil>x\<rceil> else nat \<lceil>2 ^ 53 / x\<rceil>)"
    unfolding B_def in_measure split_conv by (simp only: if_False)
qed

declare ulpRound.simps [simp del]

definition double :: "rat \<Rightarrow> rat" where
  "double x = ulpRound x 1"

definition fdiv :: "rat \<Rightarrow> rat \<Rightarrow> rat" where
  "fdiv a b = double (a / b)"

definition fmul :: "rat \<Rightarrow> rat \<Rightarrow> rat" where
  "fmul a b = double (a * b)"

text \<open>\<open>Math.round\<close> rounds to the nearest integer, a tie going upwards.\<close>

definition Math_round :: "rat \<Rightarrow> int" where
  "Math_round x = \<lfloor>x + 1 / 2\<rfloor>"

text \<open>\<open>organizer-dashboard.tsx\<close>, for a khuwani \<open>k\<close> and its claims \<open>cs\<close>.\<close>

definition totalSiparas :: "khuwani \<Rightarrow> int" where
  "totalSiparas k = numQurans k * 30"

definition progress :: "khuwani \<Rightarrow> claim list \<Rightarrow> rat" where
  "progress k cs =
     (let claimedCount = length cs
      in if 0 < totalSiparas k
         then fmul (fdiv (of_nat claimedCount) (of_int (totalSiparas k))) 100
         else 0)"

definition progressPercent :: "khuwani \<Rightarrow> claim list \<Rightarrow> int" where
  "progressPercent k cs = Math_round (progress k cs)"

text \<open>
  \<open>perQuranClaims\<close>: the record starts with 0 at the keys 1 to \<open>numQurans\<close>, and each claim
  adds 1 at its key, an absent key counting as 0. \<open>perQuranShown\<close> is the
  \<open>perQuranClaims[qNum] || 0\<close> that is displayed.
\<close>

definition perQuranClaims :: "khuwani \<Rightarrow> claim list \<Rightarrow> (int \<rightharpoonup> nat)" where
  "perQuranClaims k cs =
     foldl (\<lambda>m c. m(quranNumber c \<mapsto> (case m (quranNumber c) of None \<Rightarrow> 0 | Some n \<Rightarrow> n) + 1))
           (\<lambda>i. if 1 \<le> i \<and> i \<le> numQurans k then Some 0 else None)
           cs"

definition perQuranShown :: "khuwani \<Rightarrow> claim list \<Rightarrow> int \<Rightarrow> nat" where
  "perQuranShown k cs qNum = (case perQuranClaims k cs qNum of None \<Rightarrow> 0 | Some n \<Rightarrow> n)"

text \<open>\<open>participant-view.tsx\<close>, for the claims \<open>cs\<close> of the khuwani and the tab \<open>activeQuran\<close>.\<close>

definition claimedInQuran :: "claim list \<Rightarrow> int \<Rightarrow> nat" where
  "claimedInQuran cs activeQuran = length (filter (\<lambda>c. quranNumber c = activeQuran) cs)"

definition quranPercent :: "claim list \<Rightarrow> int \<Rightarrow> int" where
  "quranPercent cs activeQuran =
     Math_round (fmul (fdiv (of_nat (claimedInQuran cs activeQuran)) 30) 100)"

section \<open>The percentage in exact arithmetic\<close>

text \<open>
  The percentage as the specification words it, to compare with the two views:
  \<open>round(c / t * 100)\<close> for \<open>c\<close> claims of \<open>t\<close> siparas, quotient and product being the
  exact ones. The exact percentage lies exactly halfway between two integers when
  \<open>100 c / t + 1 / 2\<close>, which is \<open>(200 c + t) / (2 t)\<close>, is an integer.
\<close>

definition roundedPercent :: "int \<Rightarrow> int \<Rightarrow> int" where
  "roundedPercent c t = Math_round (of_int c / of_int t * 100)"

definition exactlyHalfway :: "int \<Rightarrow> int \<Rightarrow> bool" where
  "exactlyHalfway c t \<longleftrightarrow> (200 * c + t) mod (2 * t) = 0"

section \<open>Well-formed tables\<close>

text \<open>
  What the routes keep true of the tables: no two claims on one slot; every claim belongs
  to a khuwani of the table, on a slot of that khuwani, with a name of at most 100 units;
  the keys and the slugs of the khuwanies differ; every key of a khuwani was drawn from the
  sequence, and every khuwani has one Quran at least and no more than an integer column
  holds.
\<close>

definition claimsValid :: "database \<Rightarrow> bool" where
  "claimsValid db \<longleftrightarrow>
     (\<forall>c \<in> set (claims db). \<exists>k \<in> set (khuwanies db).
        khuwani_id k = khuwaniId c \<and> 1 \<le> quranNumber c \<and> quranNumber c \<le> numQurans k \<and>
        1 \<le> siparaNumber c \<and> siparaNumber c \<le> 30 \<and> length (participantName c) \<le> 100)"

definition khuwaniesValid :: "database \<Rightarrow> bool" where
  "khuwaniesValid db \<longleftrightarrow>
     distinct (map khuwani_id (khuwanies db)) \<and> distinct (map slug (khuwanies db)) \<and>
     1 \<le> khuwanies_seq db \<and>
     (\<forall>k \<in> set (khuwanies db).
        1 \<le> khuwani_id k \<and> khuwani_id k < khuwanies_seq db \<and> khuwani_id k \<le> maxInt4 \<and>
        1 \<le> numQurans k \<and> numQurans k \<le> maxInt4)"

definition wellFormed :: "database \<Rightarrow> bool" where
  "wellFormed db \<longleftrightarrow> unique_claim db \<and> claimsValid db \<and> khuwaniesValid db"

section \<open>An example session\<close>

text \<open>
  One organizer registers and creates the khuwani ``Haji Abdul Rehman''; the random source
  is read as \<open>0.x7f2a9\<close>. \<open>demoDb\<close> is the state these two requests reach, written out.
\<close>

definition demoSlug :: jsstring where
  "demoSlug = str ''haji-abdul-rehman-x7f2a''"

definition demoKhuwani :: khuwani where
  "demoKhuwani = \<lparr>khuwani_id = 1, organizerId = 1, slug = demoSlug,
                  marhoomName = str ''Haji Abdul Rehman'', numQurans = 1\<rparr>"

definition demoDb :: database where
  "demoDb = \<lparr>organizers = [\<lparr>organizer_id = 1, email = str ''a@b.c'', passwordHash = str ''secret''\<rparr>],
             khuwanies = [demoKhuwani], claims = [],
             organizers_seq = 2, khuwanies_seq = 2, claims_seq = 1\<rparr>"

definition claimBody :: "int \<Rightarrow> int \<Rightarrow> string \<Rightarrow> reqbody" where
  "claimBody q s name = Obj (JInt q) (JInt s) (JStr (str name))"

definition ahmedClaim :: claim where
  "ahmedClaim = \<lparr>claim_id = 1, khuwaniId = 1, quranNumber = 1, siparaNumber = 5,
                 participantName = str ''Ahmed''\<rparr>"

text \<open>\<open>demoDb\<close> after the claim of sipara 5 of Quran 1 for Ahmed.\<close>

definition claimedDb :: database where
  "claimedDb = demoDb\<lparr>claims := [ahmedClaim], claims_seq := 2\<rparr>"

text \<open>\<open>claimedDb\<close> after the release of that claim.\<close>

definition releasedDb :: database where
  "releasedDb = demoDb\<lparr>claims_seq := 2\<rparr>"

text \<open>
  The khuwani with a second Quran, and three claims of it: siparas 1 and 2 of Quran 1 and
  sipara 1 of Quran 2.
\<close>

definition twoQurans :: khuwani where
  "twoQurans = demoKhuwani\<lparr>numQurans := 2\<rparr>"

definition claimOf :: "int \<Rightarrow> int \<Rightarrow> int \<Rightarrow> claim" where
  "claimOf i q s = \<lparr>claim_id = i, khuwaniId = 1, quranNumber = q, siparaNumber = s,
                    participantName = str ''Ahmed''\<rparr>"

definition threeClaims :: "claim list" where
  "threeClaims = [claimOf 1 1 1, claimOf 2 1 2, claimOf 3 2 1]"

text \<open>
  The khuwani with four Qurans, and 69 claims of it: the 30 siparas of Quran 1, the 30 of
  Quran 2 and the first 9 of Quran 3.
\<close>

definition fourQurans :: khuwani where
  "fourQurans = demoKhuwani\<lparr>numQurans := 4\<rparr>"

definition claims69 :: "claim list" where
  "claims69 = map (\<lambda>n. claimOf (int n + 1) (int n div 30 + 1) (int n mod 30 + 1)) [0..<69]"

text \<open>
  A name and a slug that hold the character U+0000: \<open>A\<close>, U+0000, \<open>B\<close> and \<open>a\<close>, U+0000,
  \<open>b\<close>. A key beyond the integers of 32 bits. The khuwani when its count of Qurans is
  the largest integer of 32 bits.
\<close>

definition nulName :: jsstring where
  "nulName = [65, 0, 66]"

definition nulSlug :: jsstring where
  "nulSlug = [97, 0, 98]"

definition bigKey :: int where
  "bigKey = 2147483648"

definition fullKhuwani :: khuwani where
  "fullKhuwani = demoKhuwani\<lparr>numQurans := 2147483647\<rparr>"

definition fullDb :: database where
  "fullDb = demoDb\<lparr>khuwanies := [fullKhuwani]\<rparr>"

section \<open>The parameters the engine takes\<close>

lemma asInt4_Inr: "asInt4 n = Inr m \<longleftrightarrow> m = n \<and> minInt4 \<le> n \<and> n \<le> maxInt4"
  by (auto simp: asInt4_def)

lemma asInt4_ok: "minInt4 \<le> n \<Longrightarrow> n \<le> maxInt4 \<Longrightarrow> asInt4 n = Inr n"
  by (simp add: asInt4_def)

lemma asText_Inr: "asText s = Inr t \<longleftrightarrow> t = toWellFormed s \<and> 0 \<notin> set s"
  by (auto simp: asText_def)

text \<open>
  Examples: 2147483648 is out of range and \<open>10 ^ 21\<close> is no integer to the engine; an
  unpaired surrogate is replaced and a pair is kept; a string with U+0000 is refused.
\<close>

lemma parameter_examples:
  "asInt4 2147483647 = Inr 2147483647 \<and> asInt4 2147483648 = Inl NumericValueOutOfRange \<and>
   asInt4 (- 2147483649) = Inl NumericValueOutOfRange \<and>
   asInt4 (10 ^ 21) = Inl InvalidTextRepresentation \<and>
   asText [65, 55357, 66] = Inr [65, 65533, 66] \<and>
   asText [55357, 56832] = Inr [55357, 56832] \<and>
   asText [56832, 55357] = Inr [65533, 65533] \<and>
   asText [65, 0, 66] = Inl CharacterNotInRepertoire"
  by (simp add: asInt4_def asText_def minInt4_def maxInt4_def isHighSurrogate_def isLowSurrogate_def)

lemma length_toWellFormed: "length (toWellFormed s) = length s"
  by (induction s rule: toWellFormed.induct) auto

lemma find_Some_set: "find P xs = Some x \<Longrightarrow> x \<in> set xs \<and> P x"
  by (induction xs) (auto split: if_splits)

lemma getKhuwaniBySlug_Some:
  assumes "getKhuwaniBySlug db sl = Inr (Some k)"
  shows "k \<in> set (khuwanies db) \<and> slug k = toWellFormed sl \<and> 0 \<notin> set sl"
  using assms
  by (auto simp: getKhuwaniBySlug_def asText_Inr split: sum.splits dest: find_Some_set)

lemma getKhuwaniById_Some:
  assumes "getKhuwaniById db i = Inr (Some k)"
  shows "k \<in> set (khuwanies db) \<and> khuwani_id k = i \<and> minInt4 \<le> i \<and> i \<le> maxInt4 \<and>
         find (\<lambda>k. khuwani_id k = i) (khuwanies db) = Some k"
  using assms
  by (auto simp: getKhuwaniById_def asInt4_Inr split: sum.splits dest: find_Some_set)

lemma getKhuwaniBySlug_same:
  "khuwanies db1 = khuwanies db \<Longrightarrow> getKhuwaniBySlug db1 sl = getKhuwaniBySlug db sl"
  by (simp add: getKhuwaniBySlug_def split: sum.splits)

lemma getKhuwaniById_same:
  "khuwanies db1 = khuwanies db \<Longrightarrow> getKhuwaniById db1 i = getKhuwaniById db i"
  by (simp add: getKhuwaniById_def split: sum.splits)

section \<open>The routes keep the tables well-formed\<close>

lemma length_trim_le: "length (trim s) \<le> length s"
proof -
  have "length (trim s) \<le> length (dropWhile isWhiteSpace s)"
    using length_dropWhile_le [of isWhiteSpace "rev (dropWhile isWhiteSpace s)"]
    by (simp add: trim_def)
  also have "\<dots> \<le> length s" by (rule length_dropWhile_le)
  finally show ?thesis .
qed

lemma claimBodySchema_Inr:
  assumes "claimBodySchema body = Inr (q, s, p)"
  shows "1 \<le> q \<and> 1 \<le> s \<and> s \<le> 30 \<and> length p \<le> 100"
proof (cases body)
  case NotObject
  with assms show ?thesis by simp
next
  case (Obj qv sv pv)
  with assms have q: "zod_int ''quranNumber'' 1 None qv = Inr q"
    and s: "zod_int ''siparaNumber'' 1 (Some 30) sv = Inr s"
    and p: "zod_string_trim ''participantName'' 1 100 pv = Inr p"
    by (auto split: sum.splits)
  from q have "1 \<le> q" by (cases qv) (auto split: if_splits)
  moreover from s have "1 \<le> s \<and> s \<le> 30" by (cases sv) (auto split: if_splits)
  moreover from p obtain raw where "pv = JStr raw" "p = trim raw" "length raw \<le> 100"
    by (cases pv) (auto split: if_splits)
  then have "length p \<le> 100" using length_trim_le [of raw] by simp
  ultimately show ?thesis by simp
qed

lemma wellFormed_empty: "wellFormed emptyDb"
  by (simp add: wellFormed_def unique_claim_def claimsValid_def khuwaniesValid_def emptyDb_def)

lemma wellFormed_createOrganizer:
  "createOrganizer db e h = (db1, r) \<Longrightarrow> wellFormed db \<Longrightarrow> wellFormed db1"
  by (auto simp: wellFormed_def unique_claim_def claimsValid_def khuwaniesValid_def
      createOrganizer_def Let_def split: if_splits sum.splits)

lemma wellFormed_register:
  "registerRoute isEmail hash db sess b = (db1, r) \<Longrightarrow> wellFormed db \<Longrightarrow> wellFormed db1"
  by (auto simp: registerRoute_def split: sum.splits option.splits prod.splits
      dest: wellFormed_createOrganizer)

lemma createKhuwani_cases:
  assumes "createKhuwani db oid sl name n = (db1, r)"
  shows "db1 = db \<or> db1 = db\<lparr>khuwanies_seq := khuwanies_seq db + 1\<rparr> \<or>
         (khuwanies_seq db \<le> maxInt4 \<and> minInt4 \<le> n \<and> n \<le> maxInt4 \<and>
          (\<forall>k \<in> set (khuwanies db). slug k \<noteq> toWellFormed sl) \<and>
          db1 = db\<lparr>khuwanies_seq := khuwanies_seq db + 1,
                   khuwanies := khuwanies db @ [\<lparr>khuwani_id = khuwanies_seq db, organizerId = oid,
                      slug = toWellFormed sl, marhoomName = toWellFormed name, numQurans = n\<rparr>]\<rparr>)"
  using assms
  by (auto simp: createKhuwani_def Let_def asInt4_Inr asText_Inr split: sum.splits if_splits)

lemma wellFormed_createKhuwani: 
  assumes "createKhuwani db oid sl name 1 = (db1, r)" and "wellFormed db"
  shows "wellFormed db1"
proof -
  from assms have u: "unique_claim db" and c: "claimsValid db" and k: "khuwaniesValid db"
    by (simp_all add: wellFormed_def)
  from createKhuwani_cases [OF assms(1)]
  consider "db1 = db" | "db1 = db\<lparr>khuwanies_seq := khuwanies_seq db + 1\<rparr>"
    | "khuwanies_seq db \<le> maxInt4" "\<forall>k \<in> set (khuwanies db). slug k \<noteq> toWellFormed sl"
      "db1 = db\<lparr>khuwanies_seq := khuwanies_seq db + 1,
                   khuwanies := khuwanies db @ [\<lparr>khuwani_id = khuwanies_seq db, organizerId = oid,
                      slug = toWellFormed sl, marhoomName = toWellFormed name, numQurans = 1\<rparr>]\<rparr>"
    by blast
  then show ?thesis
  proof cases
    case 1
    with assms(2) show ?thesis by simp
  next
    case 2
    with u c k show ?thesis
      by (fastforce simp: wellFormed_def unique_claim_def claimsValid_def khuwaniesValid_def)
  next
    case 3
    have "unique_claim db1" using u 3(3) by (simp add: unique_claim_def)
    moreover have "claimsValid db1" using c 3(3) by (fastforce simp: claimsValid_def)
    moreover have "khuwaniesValid db1"
      using k 3 by (fastforce simp: khuwaniesValid_def maxInt4_def)
    ultimately show ?thesis by (simp add: wellFormed_def)
  qed
qed

lemma requireAuth_cases:
  assumes "requireAuth sess db next = (db1, r)"
  shows "db1 = db \<or> (\<exists>caller. next caller = (db1, r))"
  using assms by (auto simp: requireAuth_def split: option.splits if_splits)

lemma wellFormed_create: 
  assumes "createKhuwaniRoute rnd db sess v = (db1, r)" and "wellFormed db"
  shows "wellFormed db1"
proof -
  from requireAuth_cases [OF assms(1) [unfolded createKhuwaniRoute_def]]
  consider "db1 = db"
    | caller where "(case createKhuwaniFormSchema v of
         Inl e \<Rightarrow> (db, Response 400 False (formMessage e))
       | Inr name \<Rightarrow>
           (case slugLoop db name rnd (generateSlug name (rnd 0)) 0 of
              Inl err \<Rightarrow> (db, Response 500 False (Message ''Failed to create khuwani''))
            | Inr sl \<Rightarrow>
                (case createKhuwani db caller sl name 1 of
                   (db1, Inl err) \<Rightarrow> (db1, Response 500 False (Message ''Failed to create khuwani''))
                 | (db1, Inr k) \<Rightarrow> (db1, Response 200 True (KhuwaniCreated k))))) = (db1, r)"
    by blast
  then show ?thesis
  proof cases
    case 1
    with assms(2) show ?thesis by simp
  next
    case 2
    show ?thesis
    proof (cases "createKhuwaniFormSchema v")
      case (Inl e)
      with 2 assms(2) show ?thesis by simp
    next
      case name: (Inr name)
      show ?thesis
      proof (cases "slugLoop db name rnd (generateSlug name (rnd 0)) 0")
        case (Inl err)
        with 2 name assms(2) show ?thesis by simp
      next
        case (Inr sl)
        obtain d x where c: "createKhuwani db caller sl name 1 = (d, x)"
          by (cases "createKhuwani db caller sl name 1")
        with 2 name Inr have "d = db1" by (auto split: sum.splits)
        with c assms(2) show ?thesis by (auto dest: wellFormed_createKhuwani)
      qed
    qed
  qed
qed

lemma wellFormed_deleteKhuwani:
  assumes "deleteKhuwani db i = Inr db1" and "wellFormed db" shows "wellFormed db1"
proof -
  from assms have u: "unique_claim db" and c: "claimsValid db" and k: "khuwaniesValid db"
    by (simp_all add: wellFormed_def)
  from assms(1) have d: "db1 = db\<lparr>claims := filter (\<lambda>c. khuwaniId c \<noteq> i) (claims db),
      khuwanies := filter (\<lambda>k. khuwani_id k \<noteq> i) (khuwanies db)\<rparr>"
    by (auto simp: deleteKhuwani_def Let_def asInt4_def split: if_splits)
  have "unique_claim db1"
    using u by (simp add: d unique_claim_def distinct_map_filter)
  moreover have "claimsValid db1"
    using c by (fastforce simp: d claimsValid_def)
  moreover have "khuwaniesValid db1"
    using k by (simp add: d khuwaniesValid_def distinct_map_filter)
  ultimately show ?thesis by (simp add: wellFormed_def)
qed

lemma deleteAll_Inr:
  "deleteAllClaimsForKhuwani db i = Inr db1 \<longleftrightarrow>
     minInt4 \<le> i \<and> i \<le> maxInt4 \<and> db1 = db\<lparr>claims := filter (\<lambda>c. khuwaniId c \<noteq> i) (claims db)\<rparr>"
  by (auto simp: deleteAllClaimsForKhuwani_def asInt4_def split: if_splits)

lemma wellFormed_deleteAll:
  assumes "deleteAllClaimsForKhuwani db i = Inr db1" and "wellFormed db" shows "wellFormed db1"
  using assms
  by (auto simp: wellFormed_def unique_claim_def claimsValid_def khuwaniesValid_def
      deleteAll_Inr distinct_map_filter)

lemma deleteClaim_Inr:
  "deleteClaim db kid q s p = Inr (db1, deleted) \<longleftrightarrow>
     minInt4 \<le> kid \<and> kid \<le> maxInt4 \<and> minInt4 \<le> q \<and> q \<le> maxInt4 \<and>
     minInt4 \<le> s \<and> s \<le> maxInt4 \<and> 0 \<notin> set p \<and>
     db1 = db\<lparr>claims := filter (\<lambda>c. \<not> claimMatches kid q s (toWellFormed p) c) (claims db)\<rparr> \<and>
     deleted = (filter (claimMatches kid q s (toWellFormed p)) (claims db) \<noteq> [])"
  by (auto simp: deleteClaim_def Let_def asInt4_def asText_def split: if_splits)

lemma wellFormed_deleteClaim:
  assumes "deleteClaim db kid q s p = Inr (db1, deleted)" and "wellFormed db"
  shows "wellFormed db1"
  using assms
  by (auto simp: wellFormed_def unique_claim_def claimsValid_def khuwaniesValid_def
      deleteClaim_Inr distinct_map_filter)

lemma incrementQurans_Inr:
  "incrementQurans db i = Inr db1 \<longleftrightarrow>
     minInt4 \<le> i \<and> i \<le> maxInt4 \<and>
     (\<forall>k \<in> set (khuwanies db). khuwani_id k = i \<longrightarrow> numQurans k < maxInt4) \<and>
     db1 = db\<lparr>khuwanies :=
             map (\<lambda>k. if khuwani_id k = i then k\<lparr>numQurans := numQurans k + 1\<rparr> else k)
                 (khuwanies db)\<rparr>"
  by (auto simp: incrementQurans_def asInt4_def split: if_splits)

lemma wellFormed_incrementQurans:
  assumes "incrementQurans db i = Inr db1" and "wellFormed db" shows "wellFormed db1"
proof -
  from assms have u: "unique_claim db" and c: "claimsValid db" and k: "khuwaniesValid db"
    by (simp_all add: wellFormed_def)
  let ?f = "\<lambda>k. if khuwani_id k = i then k\<lparr>numQurans := numQurans k + 1\<rparr> else k"
  from assms(1) have d: "db1 = db\<lparr>khuwanies := map ?f (khuwanies db)\<rparr>"
    and below: "\<forall>k \<in> set (khuwanies db). khuwani_id k = i \<longrightarrow> numQurans k < maxInt4"
    by (simp_all add: incrementQurans_Inr)
  have ids: "map khuwani_id (map ?f xs) = map khuwani_id xs" for xs by (induction xs) auto
  have slugs: "map slug (map ?f xs) = map slug xs" for xs by (induction xs) auto
  have "unique_claim db1"
    using u by (simp add: d unique_claim_def)
  moreover have "claimsValid db1"
    unfolding claimsValid_def
  proof
    fix c assume "c \<in> set (claims db1)"
    then have "c \<in> set (claims db)" by (simp add: d)
    with c obtain k0 where k0: "k0 \<in> set (khuwanies db)" "khuwani_id k0 = khuwaniId c"
      "1 \<le> quranNumber c" "quranNumber c \<le> numQurans k0"
      "1 \<le> siparaNumber c" "siparaNumber c \<le> 30" "length (participantName c) \<le> 100"
      by (auto simp: claimsValid_def)
    then have "?f k0 \<in> set (khuwanies db1)"
      by (simp add: d)
    moreover have "khuwani_id (?f k0) = khuwaniId c \<and> quranNumber c \<le> numQurans (?f k0)"
      using k0 by simp
    ultimately show "\<exists>k \<in> set (khuwanies db1).
        khuwani_id k = khuwaniId c \<and> 1 \<le> quranNumber c \<and> quranNumber c \<le> numQurans k \<and>
        1 \<le> siparaNumber c \<and> siparaNumber c \<le> 30 \<and> length (participantName c) \<le> 100"
      using k0 by blast
  qed
  moreover have "khuwaniesValid db1"
    using k below ids [of "khuwanies db"] slugs [of "khuwanies db"]
    by (auto simp: d khuwaniesValid_def simp del: map_map)
  ultimately show ?thesis by (simp add: wellFormed_def)
qed

lemma createClaim_cases:
  assumes "createClaim db kid q s p = (db1, r)"
  shows "(db1 = db \<and> (\<exists>err. r = Inl err \<and> code err \<noteq> ''23505'')) \<or>
         (db1 = db\<lparr>claims_seq := claims_seq db + 1\<rparr> \<and> (\<exists>err. r = Inl err)) \<or>
         (\<not> (\<exists>c \<in> set (claims db). khuwaniId c = kid \<and> quranNumber c = q \<and> siparaNumber c = s) \<and>
          db1 = db\<lparr>claims_seq := claims_seq db + 1,
                   claims := claims db @ [\<lparr>claim_id = claims_seq db, khuwaniId = kid,
                     quranNumber = q, siparaNumber = s, participantName = toWellFormed p\<rparr>]\<rparr> \<and>
          r = Inr \<lparr>claim_id = claims_seq db, khuwaniId = kid,
                     quranNumber = q, siparaNumber = s, participantName = toWellFormed p\<rparr>)"
  using assms
  by (auto simp: createClaim_def Let_def asInt4_def asText_def split: sum.splits if_splits)

lemma wellFormed_createClaim:
  assumes "createClaim db kid q s p = (db1, r)" and "wellFormed db"
    and "k \<in> set (khuwanies db)" and "khuwani_id k = kid"
    and "1 \<le> q" "q \<le> numQurans k" "1 \<le> s" "s \<le> 30" "length p \<le> 100"
  shows "wellFormed db1"
proof -
  from assms have u: "unique_claim db" and c: "claimsValid db" and kv: "khuwaniesValid db"
    by (simp_all add: wellFormed_def)
  from createClaim_cases [OF assms(1)]
  consider "db1 = db" | "db1 = db\<lparr>claims_seq := claims_seq db + 1\<rparr>"
    | "\<not> (\<exists>c \<in> set (claims db). khuwaniId c = kid \<and> quranNumber c = q \<and> siparaNumber c = s)"
      "db1 = db\<lparr>claims_seq := claims_seq db + 1,
                   claims := claims db @ [\<lparr>claim_id = claims_seq db, khuwaniId = kid,
                     quranNumber = q, siparaNumber = s, participantName = toWellFormed p\<rparr>]\<rparr>"
    by blast
  then show ?thesis
  proof cases
    case 1
    with assms(2) show ?thesis by simp
  next
    case 2
    with u c kv show ?thesis
      by (fastforce simp: wellFormed_def unique_claim_def claimsValid_def khuwaniesValid_def)
  next
    case 3
    have "unique_claim db1"
      using u 3 by (force simp: unique_claim_def slotOf_def)
    moreover have "claimsValid db1"
      using c 3(2) assms(3-) by (fastforce simp: claimsValid_def length_toWellFormed)
    moreover have "khuwaniesValid db1"
      using kv 3(2) by (auto simp: khuwaniesValid_def)
    ultimately show ?thesis by (simp add: wellFormed_def)
  qed
qed

lemma wellFormed_claim:
  assumes "claimRoute db sl body = (db1, r)" and "wellFormed db"
  shows "wellFormed db1"
proof (cases "getKhuwaniBySlug db sl")
  case (Inl err)
  with assms show ?thesis by (simp add: claimRoute_def)
next
  case found: (Inr ko)
  show ?thesis
  proof (cases ko)
    case None
    with found assms show ?thesis by (simp add: claimRoute_def)
  next
    case (Some k)
    with found have kin: "k \<in> set (khuwanies db)" by (simp add: getKhuwaniBySlug_Some)
    show ?thesis
    proof (cases "claimBodySchema body")
      case (Inl e)
      with found Some assms show ?thesis by (simp add: claimRoute_def)
    next
      case (Inr t)
      obtain q s p where t: "t = (q, s, p)" by (cases t)
      from Inr t have ok: "1 \<le> q \<and> 1 \<le> s \<and> s \<le> 30 \<and> length p \<le> 100"
        by (simp add: claimBodySchema_Inr)
      show ?thesis
      proof (cases "numQurans k < q")
        case True
        with found Some Inr t assms show ?thesis by (simp add: claimRoute_def)
      next
        case False
        obtain d x where c: "createClaim db (khuwani_id k) q s p = (d, x)"
          by (cases "createClaim db (khuwani_id k) q s p")
        with found Some Inr t False assms(1) have "d = db1"
          by (auto simp: claimRoute_def split: sum.splits if_splits)
        moreover have "wellFormed d"
          using wellFormed_createClaim [OF c assms(2) kin] ok False
          by simp
        ultimately show ?thesis by simp
      qed
    qed
  qed
qed

lemma wellFormed_unclaim:
  assumes "unclaimRoute db sl body = (db1, r)" and "wellFormed db"
  shows "wellFormed db1"
  using assms
  by (auto simp: unclaimRoute_def split: option.splits sum.splits prod.splits if_splits
      dest: wellFormed_deleteClaim)

lemma wellFormed_owner_route:
  assumes "requireAuth sess db (\<lambda>caller.
       case getKhuwaniById db i of
         Inl err \<Rightarrow> (db, r500)
       | Inr None \<Rightarrow> (db, r404)
       | Inr (Some k) \<Rightarrow>
           if organizerId k \<noteq> caller then (db, r404)
           else (case f db i of Inl err \<Rightarrow> (db, r500) | Inr d \<Rightarrow> (d, r200))) = (db1, r)"
    and "wellFormed db" and "\<And>d. f db i = Inr d \<Longrightarrow> wellFormed d"
  shows "wellFormed db1"
proof -
  from requireAuth_cases [OF assms(1)]
  consider "db1 = db"
    | caller where "(case getKhuwaniById db i of
         Inl err \<Rightarrow> (db, r500)
       | Inr None \<Rightarrow> (db, r404)
       | Inr (Some k) \<Rightarrow>
           if organizerId k \<noteq> caller then (db, r404)
           else (case f db i of Inl err \<Rightarrow> (db, r500) | Inr d \<Rightarrow> (d, r200))) = (db1, r)"
    by blast
  then show ?thesis
  proof cases
    case 1
    with assms(2) show ?thesis by simp
  next
    case 2
    show ?thesis
    proof (cases "getKhuwaniById db i")
      case (Inl err)
      with 2 assms(2) show ?thesis by simp
    next
      case (Inr ko)
      show ?thesis
      proof (cases "f db i")
        case fl: (Inl err)
        with 2 Inr assms(2) show ?thesis by (auto split: option.splits if_splits)
      next
        case fr: (Inr d)
        with 2 Inr assms(2) assms(3) [OF fr] show ?thesis by (auto split: option.splits if_splits)
      qed
    qed
  qed
qed

lemma wellFormed_deleteRoute:
  assumes "deleteRoute db sess i = (db1, r)" and "wellFormed db"
  shows "wellFormed db1"
  using assms(1) [unfolded deleteRoute_def] assms(2)
proof (rule wellFormed_owner_route)
  fix d assume "deleteKhuwani db i = Inr d"
  then show "wellFormed d" using assms(2) by (rule wellFormed_deleteKhuwani)
qed

lemma wellFormed_resetRoute:
  assumes "resetRoute db sess i = (db1, r)" and "wellFormed db"
  shows "wellFormed db1"
  using assms(1) [unfolded resetRoute_def] assms(2)
proof (rule wellFormed_owner_route)
  fix d assume "deleteAllClaimsForKhuwani db i = Inr d"
  then show "wellFormed d" using assms(2) by (rule wellFormed_deleteAll)
qed

lemma wellFormed_addQuranRoute:
  assumes "addQuranRoute db sess i = (db1, r)" and "wellFormed db"
  shows "wellFormed db1"
  using assms(1) [unfolded addQuranRoute_def] assms(2)
proof (rule wellFormed_owner_route)
  fix d assume "incrementQurans db i = Inr d"
  then show "wellFormed d" using assms(2) by (rule wellFormed_incrementQurans)
qed

lemma reachable_wellFormed: "reachable db \<Longrightarrow> wellFormed db"
proof (induction rule: reachable.induct)
  case reach_empty
  show ?case by (rule wellFormed_empty)
next
  case (reach_register db isEmail hash sess body3)
  then show ?case by (metis wellFormed_register prod.collapse)
next
  case (reach_create db rnd sess v)
  then show ?case by (metis wellFormed_create prod.collapse)
next
  case (reach_delete db sess i)
  then show ?case by (metis wellFormed_deleteRoute prod.collapse)
next
  case (reach_reset db sess i)
  then show ?case by (metis wellFormed_resetRoute prod.collapse)
next
  case (reach_addQuran db sess i)
  then show ?case by (metis wellFormed_addQuranRoute prod.collapse)
next
  case (reach_claim db sl body)
  then show ?case by (metis wellFormed_claim prod.collapse)
next
  case (reach_unclaim db sl body)
  then show ?case by (metis wellFormed_unclaim prod.collapse)
qed

section \<open>The example session is reached\<close>

lemmas demo_defs = demoDb_def demoKhuwani_def demoSlug_def claimBody_def ahmedClaim_def claimedDb_def
  releasedDb_def str_def

lemmas engine_defs = asInt4_def asText_def minInt4_def maxInt4_def isHighSurrogate_def isLowSurrogate_def

lemma demoDb_reached: "fst (createKhuwaniRoute (\<lambda>i. str ''0.x7f2a9'')
        (fst (registerRoute (\<lambda>e. True) (\<lambda>p. p) emptyDb None
         (JStr (str ''a@b.c''), JStr (str ''secret''), JStr (str ''secret''))))
        (Some 1) (JStr (str ''Haji Abdul Rehman''))) = demoDb"
  by (simp add: registerRoute_def registerSchema_def emptyDb_def createOrganizer_def getOrganizerByEmail_def
     demo_defs engine_defs createKhuwaniRoute_def requireAuth_def createKhuwaniFormSchema_def createKhuwani_def
     slugLoop.simps slugExists_def generateSlug_def slugBase_def toLowerCase_def lowerUnit_def
     stripOthers_def isSlugAlnum_def isWhiteSpace_def isHyphen_def hyphen_def stripEnds_def substring_def Let_def)

lemma demo_slug: "asText demoSlug = Inr demoSlug"
  by (simp add: demo_defs engine_defs)

lemma demoDb_slug: "getKhuwaniBySlug demoDb demoSlug = Inr (Some demoKhuwani)"
  by (simp add: getKhuwaniBySlug_def demo_slug) (simp add: demo_defs)

lemma claimedDb_slug: "getKhuwaniBySlug claimedDb demoSlug = Inr (Some demoKhuwani)"
  by (simp add: getKhuwaniBySlug_def demo_slug) (simp add: demo_defs)

lemma releasedDb_slug: "getKhuwaniBySlug releasedDb demoSlug = Inr (Some demoKhuwani)"
  by (simp add: getKhuwaniBySlug_def demo_slug) (simp add: demo_defs)

lemma demo_claim: "claimRoute demoDb demoSlug (claimBody 1 5 ''Ahmed'') = (claimedDb, Response 200 True (ClaimCreated ahmedClaim))"
  by (simp add: claimRoute_def demoDb_slug)
     (simp add: demo_defs engine_defs trim_def isWhiteSpace_def createClaim_def Let_def)

lemma demo_release: "unclaimRoute claimedDb demoSlug (claimBody 1 5 ''Ahmed'') =
     (releasedDb, Response 200 True (Message ''Sipara released''))"
  by (simp add: unclaimRoute_def claimedDb_slug)
     (simp add: demo_defs engine_defs claimMatches_def deleteClaim_def trim_def isWhiteSpace_def Let_def)

lemma reachable_demoDb: "reachable demoDb"
  using reach_create [OF reach_register [OF reach_empty]] demoDb_reached by metis

lemma reachable_claimedDb: "reachable claimedDb"
  using reach_claim [OF reachable_demoDb, of demoSlug "claimBody 1 5 ''Ahmed''"] demo_claim by simp

lemma reachable_releasedDb: "reachable releasedDb"
  using reach_unclaim [OF reachable_claimedDb, of demoSlug "claimBody 1 5 ''Ahmed''"] demo_release by simp

lemma distinct_filter_le1:
  "distinct (map f xs) \<Longrightarrow> length (filter (\<lambda>x. f x = t) xs) \<le> Suc 0"
proof (induction xs)
  case Nil
  show ?case by simp
next
  case (Cons x xs)
  show ?case
  proof (cases "f x = t")
    case True
    from Cons.prems have "f x \<notin> f ` set xs" by simp
    with True have "\<forall>y \<in> set xs. f y \<noteq> t" by blast
    then have "filter (\<lambda>x. f x = t) xs = []"
      by (simp add: filter_empty_conv)
    with True show ?thesis by simp
  next
    case False
    with Cons show ?thesis by simp
  qed
qed

lemma distinct_map_eq: "distinct (map f xs) \<Longrightarrow> x \<in> set xs \<Longrightarrow> y \<in> set xs \<Longrightarrow> f x = f y \<Longrightarrow> x = y"
  by (auto simp: distinct_map dest: inj_onD)

lemma wellFormed_khuwani:
  assumes "wellFormed db" and "k \<in> set (khuwanies db)"
  shows "minInt4 \<le> khuwani_id k \<and> khuwani_id k \<le> maxInt4 \<and> 1 \<le> numQurans k \<and> numQurans k \<le> maxInt4"
  using assms by (auto simp: wellFormed_def khuwaniesValid_def minInt4_def)

lemma wellFormed_only_khuwani:
  assumes "wellFormed db" and "k \<in> set (khuwanies db)" and "k' \<in> set (khuwanies db)"
    and "khuwani_id k' = khuwani_id k"
  shows "k' = k"
proof -
  from assms(1) have "distinct (map khuwani_id (khuwanies db))"
    by (simp add: wellFormed_def khuwaniesValid_def)
  with assms(2-) show ?thesis by (auto intro: distinct_map_eq)
qed

lemma taken_slot_in_range:
  assumes "wellFormed db" and "claimsOnSlot db (kid, q, s) \<noteq> []"
  shows "\<exists>k \<in> set (khuwanies db). khuwani_id k = kid \<and> 1 \<le> q \<and> q \<le> numQurans k \<and> 1 \<le> s \<and> s \<le> 30"
proof -
  from assms(2) obtain c where c: "c \<in> set (claims db)" "slotOf c = (kid, q, s)"
    by (auto simp: claimsOnSlot_def filter_empty_conv)
  from assms(1) c(1) obtain k where "k \<in> set (khuwanies db)" "khuwani_id k = khuwaniId c"
    "1 \<le> quranNumber c" "quranNumber c \<le> numQurans k" "1 \<le> siparaNumber c" "siparaNumber c \<le> 30"
    by (auto simp: wellFormed_def claimsValid_def)
  with c(2) show ?thesis by (auto simp: slotOf_def)
qed

lemma taken_slot_int4:
  assumes "wellFormed db" and "claimsOnSlot db (kid, q, s) \<noteq> []"
  shows "minInt4 \<le> kid \<and> kid \<le> maxInt4 \<and> minInt4 \<le> q \<and> q \<le> maxInt4 \<and> minInt4 \<le> s \<and> s \<le> maxInt4"
proof -
  from taken_slot_in_range [OF assms] obtain k where k: "k \<in> set (khuwanies db)"
    "khuwani_id k = kid" "1 \<le> q" "q \<le> numQurans k" "1 \<le> s" "s \<le> 30"
    by blast
  from wellFormed_khuwani [OF assms(1) k(1)] k(2-) show ?thesis
    by (auto simp: minInt4_def maxInt4_def)
qed

lemma createClaim_taken:
  assumes "claimsOnSlot db (kid, q, s) \<noteq> []"
    and "minInt4 \<le> kid \<and> kid \<le> maxInt4 \<and> minInt4 \<le> q \<and> q \<le> maxInt4 \<and> minInt4 \<le> s \<and> s \<le> maxInt4"
  shows "createClaim db kid q s p =
     (if 0 \<in> set p then (db, Inl CharacterNotInRepertoire)
      else if maxInt4 < claims_seq db then (db, Inl SequenceLimitExceeded)
      else (db\<lparr>claims_seq := claims_seq db + 1\<rparr>, Inl UniqueViolation))"
proof -
  from assms(1) obtain c where "c \<in> set (claims db)" "slotOf c = (kid, q, s)"
    by (auto simp: claimsOnSlot_def filter_empty_conv)
  then have "\<exists>c \<in> set (claims db). khuwaniId c = kid \<and> quranNumber c = q \<and> siparaNumber c = s"
    by (auto simp: slotOf_def)
  with assms(2) show ?thesis by (simp add: createClaim_def Let_def asInt4_ok asText_def)
qed

section \<open>One claim per slot\<close>

text \<open>
  C1, as it is stated, fails: a claim request for a slot that holds a claim is not always
  answered with the taken slot. Ahmed holds sipara 5 of Quran 1; a claim of it under the
  name \<open>A\<close>, U+0000, \<open>B\<close>, which the schema accepts, is refused by the engine before the
  insert runs, and the answer is 500. No second claim is stored.
\<close>

theorem claim_taken_slot_counterexample:
  "claimsOnSlot claimedDb (1, 1, 5) = [ahmedClaim] \<and>
   getKhuwaniBySlug claimedDb demoSlug = Inr (Some demoKhuwani) \<and>
   khuwani_id demoKhuwani = 1 \<and>
   claimBodySchema (Obj (JInt 1) (JInt 5) (JStr nulName)) = Inr (1, 5, nulName) \<and>
   claimRoute claimedDb demoSlug (Obj (JInt 1) (JInt 5) (JStr nulName)) =
     (claimedDb, Response 500 False (Message ''Failed to claim sipara''))"
proof -
  have t: "claimsOnSlot claimedDb (1, 1, 5) = [ahmedClaim]"
    by (simp add: demo_defs claimsOnSlot_def slotOf_def)
  have i: "khuwani_id demoKhuwani = 1" and n: "numQurans demoKhuwani = 1"
    by (simp_all add: demoKhuwani_def)
  have b: "claimBodySchema (Obj (JInt 1) (JInt 5) (JStr nulName)) = Inr (1, 5, nulName)"
    by (simp add: nulName_def trim_def isWhiteSpace_def)
  have c: "createClaim claimedDb 1 1 5 nulName = (claimedDb, Inl CharacterNotInRepertoire)"
    by (simp add: createClaim_def engine_defs nulName_def)
  have "claimRoute claimedDb demoSlug (Obj (JInt 1) (JInt 5) (JStr nulName)) =
     (claimedDb, Response 500 False (Message ''Failed to claim sipara''))"
    unfolding claimRoute_def claimedDb_slug b by (simp add: i n c)
  with t i b claimedDb_slug show ?thesis by simp
qed

text \<open>
  C1, amended. In every state the routes reach, a slot (khuwani, Quran number, sipara
  number) holds at most one claim. A claim request with a valid body for a slot that holds
  a claim leaves the table of claims as it was; it is answered 409 with the message of a
  taken slot when its trimmed name holds no U+0000 and the sequence of the keys has a
  value left, and 500 otherwise. The route makes no check of its own: the insert of the
  storage layer is what rejects the second row, with the unique violation, whoever calls
  it.
\<close>

theorem claim_slot_unique:
  assumes "reachable db"
  shows "(\<forall>slot. length (claimsOnSlot db slot) \<le> 1) \<and>
    (\<forall>sl body k q s p.
       getKhuwaniBySlug db sl = Inr (Some k) \<and> claimBodySchema body = Inr (q, s, p) \<and>
       claimsOnSlot db (khuwani_id k, q, s) \<noteq> [] \<longrightarrow>
       claims (fst (claimRoute db sl body)) = claims db \<and>
       snd (claimRoute db sl body) =
         (if 0 \<notin> set p \<and> claims_seq db \<le> maxInt4
          then Response 409 False (Message slotTakenMessage)
          else Response 500 False (Message ''Failed to claim sipara''))) \<and>
    (\<forall>kid q s p.
       claimsOnSlot db (kid, q, s) \<noteq> [] \<longrightarrow>
       claims (fst (createClaim db kid q s p)) = claims db \<and>
       snd (createClaim db kid q s p) =
         (if 0 \<in> set p then Inl CharacterNotInRepertoire
          else if maxInt4 < claims_seq db then Inl SequenceLimitExceeded
          else Inl UniqueViolation))"
proof (intro conjI allI impI)
  from assms have wf: "wellFormed db" by (rule reachable_wellFormed)
  fix slot
  from wf have "distinct (map slotOf (claims db))" by (simp add: wellFormed_def unique_claim_def)
  then show "length (claimsOnSlot db slot) \<le> 1"
    unfolding claimsOnSlot_def using distinct_filter_le1 [of slotOf "claims db" slot] by simp
next
  from assms have wf: "wellFormed db" by (rule reachable_wellFormed)
  fix sl body k q s p
  assume h: "getKhuwaniBySlug db sl = Inr (Some k) \<and> claimBodySchema body = Inr (q, s, p) \<and>
       claimsOnSlot db (khuwani_id k, q, s) \<noteq> []"
  then have kin: "k \<in> set (khuwanies db)" using getKhuwaniBySlug_Some by blast
  from h taken_slot_in_range [OF wf, of "khuwani_id k" q s]
  obtain k' where k': "k' \<in> set (khuwanies db)" "khuwani_id k' = khuwani_id k" "q \<le> numQurans k'"
    by blast
  from wellFormed_only_khuwani [OF wf kin k'(1,2)] k'(3) have range: "\<not> numQurans k < q" by simp
  from h have ins: "createClaim db (khuwani_id k) q s p =
     (if 0 \<in> set p then (db, Inl CharacterNotInRepertoire)
      else if maxInt4 < claims_seq db then (db, Inl SequenceLimitExceeded)
      else (db\<lparr>claims_seq := claims_seq db + 1\<rparr>, Inl UniqueViolation))"
    using taken_slot_int4 [OF wf] by (intro createClaim_taken) blast+
  from h range show "claims (fst (claimRoute db sl body)) = claims db"
    by (simp add: claimRoute_def ins)
  from h range show "snd (claimRoute db sl body) =
         (if 0 \<notin> set p \<and> claims_seq db \<le> maxInt4
          then Response 409 False (Message slotTakenMessage)
          else Response 500 False (Message ''Failed to claim sipara''))"
    by (simp add: claimRoute_def ins)
next
  from assms have wf: "wellFormed db" by (rule reachable_wellFormed)
  fix kid q s p
  assume t: "claimsOnSlot db (kid, q, s) \<noteq> []"
  then have ins: "createClaim db kid q s p =
     (if 0 \<in> set p then (db, Inl CharacterNotInRepertoire)
      else if maxInt4 < claims_seq db then (db, Inl SequenceLimitExceeded)
      else (db\<lparr>claims_seq := claims_seq db + 1\<rparr>, Inl UniqueViolation))"
    using taken_slot_int4 [OF wf t] by (rule createClaim_taken)
  then show "claims (fst (createClaim db kid q s p)) = claims db" by simp
  from ins show "snd (createClaim db kid q s p) =
         (if 0 \<in> set p then Inl CharacterNotInRepertoire
          else if maxInt4 < claims_seq db then Inl SequenceLimitExceeded
          else Inl UniqueViolation)"
    by simp
qed

text \<open>
  C1 amended, at the example: Ahmed holds sipara 5 of Quran 1, and Fatima's claim of it is
  answered 409.
\<close>

theorem claim_slot_unique_witness:
  "reachable claimedDb \<and>
   getKhuwaniBySlug claimedDb demoSlug = Inr (Some demoKhuwani) \<and>
   claimBodySchema (claimBody 1 5 ''Fatima'') = Inr (1, 5, str ''Fatima'') \<and>
   claimsOnSlot claimedDb (1, 1, 5) = [ahmedClaim] \<and>
   length (claimsOnSlot claimedDb (1, 1, 5)) \<le> 1 \<and>
   snd (claimRoute claimedDb demoSlug (claimBody 1 5 ''Fatima'')) =
     Response 409 False (Message slotTakenMessage) \<and>
   claims (fst (claimRoute claimedDb demoSlug (claimBody 1 5 ''Fatima''))) = [ahmedClaim] \<and>
   snd (createClaim claimedDb 1 1 5 (str ''Fatima'')) = Inl UniqueViolation"
proof -
  note k = claimedDb_slug
  have b: "claimBodySchema (claimBody 1 5 ''Fatima'') = Inr (1, 5, str ''Fatima'')"
    by (simp add: demo_defs trim_def isWhiteSpace_def)
  have t: "claimsOnSlot claimedDb (1, 1, 5) = [ahmedClaim]"
    by (simp add: demo_defs claimsOnSlot_def slotOf_def)
  have i: "khuwani_id demoKhuwani = 1" by (simp add: demoKhuwani_def)
  have c: "claims claimedDb = [ahmedClaim]" by (simp add: claimedDb_def)
  have z: "0 \<notin> set (str ''Fatima'')" "claims_seq claimedDb \<le> maxInt4" "\<not> maxInt4 < claims_seq claimedDb"
    by (simp_all add: demo_defs maxInt4_def)
  note T = claim_slot_unique [OF reachable_claimedDb]
  from T have a1: "length (claimsOnSlot claimedDb (1, 1, 5)) \<le> 1" by blast
  from T [THEN conjunct2, THEN conjunct1, rule_format,
      of demoSlug demoKhuwani "claimBody 1 5 ''Fatima''" 1 5 "str ''Fatima''"] k b t i z c
  have a2: "snd (claimRoute claimedDb demoSlug (claimBody 1 5 ''Fatima'')) =
     Response 409 False (Message slotTakenMessage) \<and>
   claims (fst (claimRoute claimedDb demoSlug (claimBody 1 5 ''Fatima''))) = [ahmedClaim]"
    by simp
  from T [THEN conjunct2, THEN conjunct2, rule_format, of 1 1 5 "str ''Fatima''"] t z
  have a3: "snd (createClaim claimedDb 1 1 5 (str ''Fatima'')) = Inl UniqueViolation"
    by simp
  from reachable_claimedDb k b t a1 a2 a3 show ?thesis by simp
qed

section \<open>Rejected claim requests\<close>

text \<open>
  C2, as it is stated, fails: a claim request on a slug that no khuwani has is not always
  answered 404. For the slug \<open>a\<close>, U+0000, \<open>b\<close> the engine refuses the lookup, and the
  answer is 500.
\<close>

theorem claim_unknown_slug_counterexample:
  "filter (\<lambda>k. slug k = nulSlug) (khuwanies demoDb) = [] \<and>
   claimRoute demoDb nulSlug (claimBody 1 5 ''Ahmed'') =
     (demoDb, Response 500 False (Message ''Failed to claim sipara''))"
  by (simp add: claimRoute_def getKhuwaniBySlug_def asText_def nulSlug_def demo_defs)

text \<open>
  C2, amended. A claim request on a slug that holds no U+0000 and that no khuwani has is
  answered 404; on a slug that holds U+0000 it is answered 500. On a khuwani that exists,
  a request whose Quran number is above the khuwani's count, or whose sipara number is
  below 1 or above 30, is answered 400. In all these cases, and whenever the answer is 400
  or 404, the database is left as it was.
\<close>

theorem claim_rejected_unchanged:
  "(0 \<notin> set sl \<and> (\<forall>k \<in> set (khuwanies db). slug k \<noteq> toWellFormed sl) \<longrightarrow>
      claimRoute db sl body = (db, Response 404 False (Message ''Khuwani not found''))) \<and>
   (0 \<in> set sl \<longrightarrow>
      claimRoute db sl body = (db, Response 500 False (Message ''Failed to claim sipara''))) \<and>
   (\<forall>k q s pv. getKhuwaniBySlug db sl = Inr (Some k) \<and> body = Obj (JInt q) (JInt s) pv \<and>
        (numQurans k < q \<or> s < 1 \<or> 30 < s) \<longrightarrow>
        status (snd (claimRoute db sl body)) = 400 \<and> fst (claimRoute db sl body) = db) \<and>
   (status (snd (claimRoute db sl body)) \<in> {400, 404} \<longrightarrow> fst (claimRoute db sl body) = db)"
proof (intro conjI allI impI)
  assume h: "0 \<notin> set sl \<and> (\<forall>k \<in> set (khuwanies db). slug k \<noteq> toWellFormed sl)"
  then have "find (\<lambda>k. slug k = toWellFormed sl) (khuwanies db) = None"
    by (simp add: find_None_iff)
  with h have "getKhuwaniBySlug db sl = Inr None"
    by (simp add: getKhuwaniBySlug_def asText_def)
  then show "claimRoute db sl body = (db, Response 404 False (Message ''Khuwani not found''))"
    by (simp add: claimRoute_def)
next
  assume "0 \<in> set sl"
  then have "getKhuwaniBySlug db sl = Inl CharacterNotInRepertoire"
    by (simp add: getKhuwaniBySlug_def asText_def)
  then show "claimRoute db sl body = (db, Response 500 False (Message ''Failed to claim sipara''))"
    by (simp add: claimRoute_def)
next
  fix k q s pv
  assume h: "getKhuwaniBySlug db sl = Inr (Some k) \<and> body = Obj (JInt q) (JInt s) pv \<and>
        (numQurans k < q \<or> s < 1 \<or> 30 < s)"
  then show "status (snd (claimRoute db sl body)) = 400"
    by (auto simp: claimRoute_def split: sum.splits if_splits)
  from h show "fst (claimRoute db sl body) = db"
    by (auto simp: claimRoute_def split: sum.splits if_splits)
next
  assume "status (snd (claimRoute db sl body)) \<in> {400, 404}"
  then show "fst (claimRoute db sl body) = db"
    by (auto simp: claimRoute_def split: sum.splits option.splits if_splits prod.splits)
qed

text \<open>
  C2 amended, at the example: Quran 2 of a khuwani of one Quran, sipara 31, and a slug of
  no khuwani.
\<close>

theorem claim_rejected_unchanged_witness:
  "getKhuwaniBySlug demoDb demoSlug = Inr (Some demoKhuwani) \<and> numQurans demoKhuwani < 2 \<and>
   claimRoute demoDb demoSlug (claimBody 2 5 ''Ahmed'') =
     (demoDb, Response 400 False (Message ''Invalid Quran number'')) \<and>
   status (snd (claimRoute demoDb demoSlug (claimBody 1 31 ''Ahmed''))) = 400 \<and>
   fst (claimRoute demoDb demoSlug (claimBody 1 31 ''Ahmed'')) = demoDb \<and>
   filter (\<lambda>k. slug k = str ''no-such-slug'') (khuwanies demoDb) = [] \<and>
   claimRoute demoDb (str ''no-such-slug'') (claimBody 1 5 ''Ahmed'') =
     (demoDb, Response 404 False (Message ''Khuwani not found''))"
proof -
  note k = demoDb_slug
  have n: "numQurans demoKhuwani < 2" by (simp add: demoKhuwani_def)
  have w: "toWellFormed (str ''no-such-slug'') = str ''no-such-slug''"
    by (simp add: str_def isHighSurrogate_def isLowSurrogate_def)
  have none: "filter (\<lambda>k. slug k = str ''no-such-slug'') (khuwanies demoDb) = []"
    by (simp add: demo_defs)
  then have none': "0 \<notin> set (str ''no-such-slug'') \<and>
      (\<forall>k \<in> set (khuwanies demoDb). slug k \<noteq> toWellFormed (str ''no-such-slug''))"
    unfolding w by (simp add: filter_empty_conv) (simp add: str_def)
  have q2: "claimRoute demoDb demoSlug (claimBody 2 5 ''Ahmed'') =
     (demoDb, Response 400 False (Message ''Invalid Quran number''))"
    by (simp add: claimRoute_def k n claimBody_def str_def trim_def isWhiteSpace_def)
  from claim_rejected_unchanged [of demoSlug demoDb "claimBody 1 31 ''Ahmed''"] k
  have s31: "status (snd (claimRoute demoDb demoSlug (claimBody 1 31 ''Ahmed''))) = 400 \<and>
     fst (claimRoute demoDb demoSlug (claimBody 1 31 ''Ahmed'')) = demoDb"
    by (simp add: claimBody_def)
  from claim_rejected_unchanged [of "str ''no-such-slug''" demoDb "claimBody 1 5 ''Ahmed''"] none'
  have "claimRoute demoDb (str ''no-such-slug'') (claimBody 1 5 ''Ahmed'') =
     (demoDb, Response 404 False (Message ''Khuwani not found''))"
    by blast
  with k n none q2 s31 show ?thesis by simp
qed

section \<open>Releasing a claim\<close>

lemma claimBodySchema_valid:
  assumes "1 \<le> q" "1 \<le> s" "s \<le> 30" "1 \<le> length name" "length name \<le> 100"
  shows "claimBodySchema (Obj (JInt q) (JInt s) (JStr name)) = Inr (q, s, trim name)"
  using assms by (cases name) simp_all


lemma in_dropWhile: "\<not> P x \<Longrightarrow> x \<in> set (dropWhile P xs) \<longleftrightarrow> x \<in> set xs"
  by (induction xs) auto

lemma zero_in_trim: "0 \<in> set (trim s) \<longleftrightarrow> 0 \<in> set s"
proof -
  have "\<not> isWhiteSpace 0" by (simp add: isWhiteSpace_def)
  then show ?thesis by (simp add: trim_def in_dropWhile)
qed






section \<open>Adding a Quran and resetting the claims\<close>

lemma owner_route_found:
  assumes "caller \<noteq> 0" and "getKhuwaniById db i = Inr (Some k)" and "organizerId k = caller"
  shows "requireAuth (Some caller) db (\<lambda>caller.
       case getKhuwaniById db i of
         Inl err \<Rightarrow> (db, r500)
       | Inr None \<Rightarrow> (db, r404)
       | Inr (Some k) \<Rightarrow>
           if organizerId k \<noteq> caller then (db, r404)
           else (case f db i of Inl err \<Rightarrow> (db, r500) | Inr d \<Rightarrow> (d, r200))) =
     (case f db i of Inl err \<Rightarrow> (db, r500) | Inr d \<Rightarrow> (d, r200))"
  using assms by (simp add: requireAuth_def)

lemma owner_route_refused:
  assumes "caller \<noteq> 0"
    and "getKhuwaniById db i = Inr None \<or>
         (\<exists>k. getKhuwaniById db i = Inr (Some k) \<and> organizerId k \<noteq> caller)"
  shows "requireAuth (Some caller) db (\<lambda>caller.
       case getKhuwaniById db i of
         Inl err \<Rightarrow> (db, r500)
       | Inr None \<Rightarrow> (db, r404)
       | Inr (Some k) \<Rightarrow>
           if organizerId k \<noteq> caller then (db, r404)
           else (case f db i of Inl err \<Rightarrow> (db, r500) | Inr d \<Rightarrow> (d, r200))) = (db, r404)"
  using assms by (auto simp: requireAuth_def)

lemma owner_route_raised:
  assumes "caller \<noteq> 0" and "i < minInt4 \<or> maxInt4 < i"
  shows "requireAuth (Some caller) db (\<lambda>caller.
       case getKhuwaniById db i of
         Inl err \<Rightarrow> (db, r500)
       | Inr None \<Rightarrow> (db, r404)
       | Inr (Some k) \<Rightarrow>
           if organizerId k \<noteq> caller then (db, r404)
           else (case f db i of Inl err \<Rightarrow> (db, r500) | Inr d \<Rightarrow> (d, r200))) = (db, r500)"
  using assms by (auto simp: requireAuth_def getKhuwaniById_def asInt4_def)

lemma find_incremented:
  "find (\<lambda>k. khuwani_id k = i) xs = Some k \<Longrightarrow>
   find (\<lambda>k. khuwani_id k = i)
     (map (\<lambda>k. if khuwani_id k = i then k\<lparr>numQurans := numQurans k + 1\<rparr> else k) xs) =
   Some (k\<lparr>numQurans := numQurans k + 1\<rparr>)"
  by (induction xs) (auto split: if_splits)

lemma addQuranRoute_found:
  assumes "wellFormed db" and "caller \<noteq> 0" and "getKhuwaniById db i = Inr (Some k)"
    and "organizerId k = caller" and "numQurans k < maxInt4"
  shows "addQuranRoute db (Some caller) i =
     (db\<lparr>khuwanies :=
          map (\<lambda>k. if khuwani_id k = i then k\<lparr>numQurans := numQurans k + 1\<rparr> else k) (khuwanies db)\<rparr>,
      Response 200 True (Message ''Quran added''))"
proof -
  note f = getKhuwaniById_Some [OF assms(3)]
  have "\<forall>k' \<in> set (khuwanies db). khuwani_id k' = i \<longrightarrow> numQurans k' < maxInt4"
  proof (intro ballI impI)
    fix k' assume "k' \<in> set (khuwanies db)" "khuwani_id k' = i"
    with f wellFormed_only_khuwani [OF assms(1), of k k'] have "k' = k" by simp
    with assms(5) show "numQurans k' < maxInt4" by simp
  qed
  with f have "incrementQurans db i = Inr (db\<lparr>khuwanies :=
          map (\<lambda>k. if khuwani_id k = i then k\<lparr>numQurans := numQurans k + 1\<rparr> else k) (khuwanies db)\<rparr>)"
    by (simp add: incrementQurans_Inr)
  then show ?thesis
    unfolding addQuranRoute_def owner_route_found [OF assms(2-4)] by simp
qed

lemma addQuranRoute_full:
  assumes "caller \<noteq> 0" and "getKhuwaniById db i = Inr (Some k)"
    and "organizerId k = caller" and "numQurans k = maxInt4"
  shows "addQuranRoute db (Some caller) i =
     (db, Response 500 False (Message ''Failed to add Quran''))"
proof -
  note f = getKhuwaniById_Some [OF assms(2)]
  with assms(4) have "\<exists>k \<in> set (khuwanies db). khuwani_id k = i \<and> maxInt4 < numQurans k + 1"
    by (intro bexI [of _ k]) simp_all
  with f have "incrementQurans db i = Inl NumericValueOutOfRange"
    by (simp add: incrementQurans_def asInt4_ok)
  then show ?thesis
    unfolding addQuranRoute_def owner_route_found [OF assms(1-3)] by simp
qed

lemma getKhuwaniById_incremented:
  assumes "getKhuwaniById db i = Inr (Some k)"
  shows "getKhuwaniById (db\<lparr>khuwanies :=
          map (\<lambda>k. if khuwani_id k = i then k\<lparr>numQurans := numQurans k + 1\<rparr> else k) (khuwanies db)\<rparr>) i =
     Inr (Some (k\<lparr>numQurans := numQurans k + 1\<rparr>))"
  using getKhuwaniById_Some [OF assms]
  by (simp add: getKhuwaniById_def asInt4_ok find_incremented)

lemma resetRoute_found:
  assumes "caller \<noteq> 0" and "getKhuwaniById db i = Inr (Some k)" and "organizerId k = caller"
  shows "resetRoute db (Some caller) i =
     (db\<lparr>claims := filter (\<lambda>c. khuwaniId c \<noteq> i) (claims db)\<rparr>,
      Response 200 True (Message ''Claims reset''))"
proof -
  from getKhuwaniById_Some [OF assms(2)]
  have "deleteAllClaimsForKhuwani db i = Inr (db\<lparr>claims := filter (\<lambda>c. khuwaniId c \<noteq> i) (claims db)\<rparr>)"
    by (simp add: deleteAll_Inr)
  then show ?thesis
    unfolding resetRoute_def owner_route_found [OF assms] by simp
qed

lemma addQuran_repeated:
  assumes "wellFormed db" and "caller \<noteq> 0" and "getKhuwaniById db i = Inr (Some k)"
    and "organizerId k = caller"
  shows "numQurans k + int K \<le> maxInt4 \<Longrightarrow>
     wellFormed (((\<lambda>d. fst (addQuranRoute d (Some caller) i)) ^^ K) db) \<and>
     getKhuwaniById (((\<lambda>d. fst (addQuranRoute d (Some caller) i)) ^^ K) db) i =
       Inr (Some (k\<lparr>numQurans := numQurans k + int K\<rparr>))"
proof (induction K)
  case 0
  from assms(1,3) show ?case by simp
next
  case (Suc K)
  let ?d = "((\<lambda>d. fst (addQuranRoute d (Some caller) i)) ^^ K) db"
  let ?k = "k\<lparr>numQurans := numQurans k + int K\<rparr>"
  from Suc have wf: "wellFormed ?d" and found: "getKhuwaniById ?d i = Inr (Some ?k)" by simp_all
  from assms(4) have own: "organizerId ?k = caller" by simp
  from Suc.prems have below: "numQurans ?k < maxInt4" by simp
  note r = addQuranRoute_found [OF wf assms(2) found own below]
  have "wellFormed (fst (addQuranRoute ?d (Some caller) i))"
    using wellFormed_addQuranRoute [OF _ wf] by (metis prod.collapse)
  moreover have "getKhuwaniById (fst (addQuranRoute ?d (Some caller) i)) i =
      Inr (Some (?k\<lparr>numQurans := numQurans ?k + 1\<rparr>))"
    unfolding r fst_conv using found by (rule getKhuwaniById_incremented)
  ultimately show ?case by (simp add: add.assoc add.commute)
qed

text \<open>
  C4, as it is stated, fails: the count of Qurans has an upper bound, and a key of no
  khuwani is not always answered 404. For the key 2147483648, beyond the integers of 32
  bits, the engine refuses the lookup and the answer is 500. At a count of 2147483647 the
  engine refuses the update: the answer is 500 and the count stays as it was.
\<close>

theorem addQuran_bound_counterexample:
  "filter (\<lambda>k. khuwani_id k = bigKey) (khuwanies demoDb) = [] \<and>
   addQuranRoute demoDb (Some 1) bigKey =
     (demoDb, Response 500 False (Message ''Failed to add Quran'')) \<and>
   getKhuwaniById fullDb 1 = Inr (Some fullKhuwani) \<and>
   organizerId fullKhuwani = 1 \<and> numQurans fullKhuwani = 2147483647 \<and>
   addQuranRoute fullDb (Some 1) 1 =
     (fullDb, Response 500 False (Message ''Failed to add Quran''))"
  by (simp add: addQuranRoute_def requireAuth_def getKhuwaniById_def incrementQurans_def
      engine_defs bigKey_def fullDb_def fullKhuwani_def demo_defs)

text \<open>
  C4, amended. In a state the routes reach, for a caller the access gate let through and a
  key within the integers of 32 bits: adding a Quran to a khuwani that is not in the
  table, or whose organizer is not the caller, is answered 404 and changes nothing; for
  the khuwani's own organizer, while the count of Qurans is below 2147483647, it is
  answered 200 and the count is one more than before, and after K such requests it is K
  more, for every K that keeps the count within 2147483647. A key beyond the integers of
  32 bits is answered 500, and so is the request at a count of 2147483647, which changes
  nothing.
\<close>

theorem addQuran_increments:
  assumes "reachable db" and "caller \<noteq> 0"
  shows "(minInt4 \<le> i \<and> i \<le> maxInt4 \<and>
          (\<forall>k \<in> set (khuwanies db). khuwani_id k = i \<longrightarrow> organizerId k \<noteq> caller) \<longrightarrow>
            addQuranRoute db (Some caller) i =
              (db, Response 404 False (Message ''Khuwani not found''))) \<and>
         (i < minInt4 \<or> maxInt4 < i \<longrightarrow>
            addQuranRoute db (Some caller) i =
              (db, Response 500 False (Message ''Failed to add Quran''))) \<and>
         (\<forall>k. getKhuwaniById db i = Inr (Some k) \<and> organizerId k = caller \<longrightarrow>
            (numQurans k < maxInt4 \<longrightarrow>
               snd (addQuranRoute db (Some caller) i) = Response 200 True (Message ''Quran added'') \<and>
               getKhuwaniById (fst (addQuranRoute db (Some caller) i)) i =
                 Inr (Some (k\<lparr>numQurans := numQurans k + 1\<rparr>))) \<and>
            (numQurans k = maxInt4 \<longrightarrow>
               addQuranRoute db (Some caller) i =
                 (db, Response 500 False (Message ''Failed to add Quran''))) \<and>
            (\<forall>K. numQurans k + int K \<le> maxInt4 \<longrightarrow>
               getKhuwaniById (((\<lambda>d. fst (addQuranRoute d (Some caller) i)) ^^ K) db) i =
                 Inr (Some (k\<lparr>numQurans := numQurans k + int K\<rparr>))))"
proof (intro conjI allI impI)
  assume h: "minInt4 \<le> i \<and> i \<le> maxInt4 \<and>
          (\<forall>k \<in> set (khuwanies db). khuwani_id k = i \<longrightarrow> organizerId k \<noteq> caller)"
  have "getKhuwaniById db i = Inr None \<or>
          (\<exists>k. getKhuwaniById db i = Inr (Some k) \<and> organizerId k \<noteq> caller)"
  proof (cases "find (\<lambda>k. khuwani_id k = i) (khuwanies db)")
    case None
    with h show ?thesis by (simp add: getKhuwaniById_def asInt4_ok)
  next
    case (Some k)
    with h have "organizerId k \<noteq> caller" by (auto dest: find_Some_set)
    with h Some show ?thesis by (simp add: getKhuwaniById_def asInt4_ok)
  qed
  with assms(2) show "addQuranRoute db (Some caller) i =
              (db, Response 404 False (Message ''Khuwani not found''))"
    unfolding addQuranRoute_def by (rule owner_route_refused)
next
  assume "i < minInt4 \<or> maxInt4 < i"
  with assms(2) show "addQuranRoute db (Some caller) i =
              (db, Response 500 False (Message ''Failed to add Quran''))"
    unfolding addQuranRoute_def by (rule owner_route_raised)
next
  fix k
  assume h: "getKhuwaniById db i = Inr (Some k) \<and> organizerId k = caller"
    and below: "numQurans k < maxInt4"
  from assms(1) have wf: "wellFormed db" by (rule reachable_wellFormed)
  from h have found: "getKhuwaniById db i = Inr (Some k)" and own: "organizerId k = caller" by simp_all
  note r = addQuranRoute_found [OF wf assms(2) found own below]
  from r show "snd (addQuranRoute db (Some caller) i) = Response 200 True (Message ''Quran added'')"
    by simp
  show "getKhuwaniById (fst (addQuranRoute db (Some caller) i)) i =
              Inr (Some (k\<lparr>numQurans := numQurans k + 1\<rparr>))"
    unfolding r fst_conv using found by (rule getKhuwaniById_incremented)
next
  fix k
  assume h: "getKhuwaniById db i = Inr (Some k) \<and> organizerId k = caller"
    and full: "numQurans k = maxInt4"
  from h have found: "getKhuwaniById db i = Inr (Some k)" and own: "organizerId k = caller" by simp_all
  from assms(2) found own full
  show "addQuranRoute db (Some caller) i = (db, Response 500 False (Message ''Failed to add Quran''))"
    by (rule addQuranRoute_full)
next
  fix k K
  assume h: "getKhuwaniById db i = Inr (Some k) \<and> organizerId k = caller"
    and bound: "numQurans k + int K \<le> maxInt4"
  from assms(1) have wf: "wellFormed db" by (rule reachable_wellFormed)
  from h have found: "getKhuwaniById db i = Inr (Some k)" and own: "organizerId k = caller" by simp_all
  from addQuran_repeated [OF wf assms(2) found own bound]
  show "getKhuwaniById (((\<lambda>d. fst (addQuranRoute d (Some caller) i)) ^^ K) db) i =
              Inr (Some (k\<lparr>numQurans := numQurans k + int K\<rparr>))"
    by simp
qed

text \<open>
  C4 amended, at the example: one request gives 2 Qurans, three give 4, and another
  organizer or an unknown key gets 404.
\<close>

theorem addQuran_increments_witness:
  "reachable demoDb \<and>
   getKhuwaniById demoDb 1 = Inr (Some demoKhuwani) \<and> organizerId demoKhuwani = 1 \<and>
   numQurans demoKhuwani = 1 \<and>
   getKhuwaniById (fst (addQuranRoute demoDb (Some 1) 1)) 1 = Inr (Some (demoKhuwani\<lparr>numQurans := 2\<rparr>)) \<and>
   getKhuwaniById (((\<lambda>d. fst (addQuranRoute d (Some 1) 1)) ^^ 3) demoDb) 1 =
     Inr (Some (demoKhuwani\<lparr>numQurans := 4\<rparr>)) \<and>
   addQuranRoute demoDb (Some 2) 1 = (demoDb, Response 404 False (Message ''Khuwani not found'')) \<and>
   filter (\<lambda>k. khuwani_id k = 7) (khuwanies demoDb) = [] \<and>
   addQuranRoute demoDb (Some 1) 7 = (demoDb, Response 404 False (Message ''Khuwani not found''))"
proof -
  have k: "getKhuwaniById demoDb 1 = Inr (Some demoKhuwani)"
    by (simp add: demo_defs getKhuwaniById_def engine_defs)
  have o: "organizerId demoKhuwani = 1" by (simp add: demoKhuwani_def)
  have n: "numQurans demoKhuwani = 1" by (simp add: demoKhuwani_def)
  have none: "filter (\<lambda>k. khuwani_id k = 7) (khuwanies demoDb) = []"
    by (simp add: demo_defs)
  have r7: "minInt4 \<le> (7::int) \<and> (7::int) \<le> maxInt4 \<and>
      (\<forall>k \<in> set (khuwanies demoDb). khuwani_id k = 7 \<longrightarrow> organizerId k \<noteq> 1)"
    and r1: "minInt4 \<le> (1::int) \<and> (1::int) \<le> maxInt4 \<and>
      (\<forall>k \<in> set (khuwanies demoDb). khuwani_id k = 1 \<longrightarrow> organizerId k \<noteq> 2)"
    by (simp_all add: demo_defs minInt4_def maxInt4_def)
  have one: "(1::int) \<noteq> 0" and two: "(2::int) \<noteq> 0" by simp_all
  have b1: "numQurans demoKhuwani < maxInt4" and b3: "numQurans demoKhuwani + int 3 \<le> maxInt4"
    by (simp_all add: n maxInt4_def)
  note T = addQuran_increments [OF reachable_demoDb one, of 1]
  from T k o b1 have "getKhuwaniById (fst (addQuranRoute demoDb (Some 1) 1)) 1 =
      Inr (Some (demoKhuwani\<lparr>numQurans := numQurans demoKhuwani + 1\<rparr>))"
    by blast
  with n have a: "getKhuwaniById (fst (addQuranRoute demoDb (Some 1) 1)) 1 =
      Inr (Some (demoKhuwani\<lparr>numQurans := 2\<rparr>))"
    by simp
  from T k o b3
  have "getKhuwaniById (((\<lambda>d. fst (addQuranRoute d (Some 1) 1)) ^^ 3) demoDb) 1 =
     Inr (Some (demoKhuwani\<lparr>numQurans := numQurans demoKhuwani + int 3\<rparr>))"
    by blast
  with n have b: "getKhuwaniById (((\<lambda>d. fst (addQuranRoute d (Some 1) 1)) ^^ 3) demoDb) 1 =
     Inr (Some (demoKhuwani\<lparr>numQurans := 4\<rparr>))" by simp
  from addQuran_increments [OF reachable_demoDb two, of 1] r1
  have c: "addQuranRoute demoDb (Some 2) 1 = (demoDb, Response 404 False (Message ''Khuwani not found''))"
    by blast
  from addQuran_increments [OF reachable_demoDb one, of 7] r7
  have d: "addQuranRoute demoDb (Some 1) 7 = (demoDb, Response 404 False (Message ''Khuwani not found''))"
    by blast
  from reachable_demoDb k o n a b c d none show ?thesis by simp
qed

text \<open>
  C5. A reset by the khuwani's own organizer leaves a database that differs from the one
  before in the table of claims only, from which exactly the claims of this khuwani are
  gone: the claims of every other khuwani, the khuwani's own row (count of Qurans, slug,
  name) and the organizers are as they were.
\<close>

theorem reset_removes_only_claims:
  assumes "caller \<noteq> 0" and "getKhuwaniById db i = Inr (Some k)" and "organizerId k = caller"
  shows "resetRoute db (Some caller) i =
           (db\<lparr>claims := filter (\<lambda>c. khuwaniId c \<noteq> i) (claims db)\<rparr>,
            Response 200 True (Message ''Claims reset'')) \<and>
         getClaimsForKhuwani (fst (resetRoute db (Some caller) i)) i = Inr [] \<and>
         (\<forall>j. j \<noteq> i \<longrightarrow>
            getClaimsForKhuwani (fst (resetRoute db (Some caller) i)) j = getClaimsForKhuwani db j) \<and>
         khuwanies (fst (resetRoute db (Some caller) i)) = khuwanies db \<and>
         getKhuwaniById (fst (resetRoute db (Some caller) i)) i = Inr (Some k) \<and>
         organizers (fst (resetRoute db (Some caller) i)) = organizers db"
proof -
  let ?db1 = "db\<lparr>claims := filter (\<lambda>c. khuwaniId c \<noteq> i) (claims db)\<rparr>"
  have r: "resetRoute db (Some caller) i = (?db1, Response 200 True (Message ''Claims reset''))"
    using assms by (rule resetRoute_found)
  from getKhuwaniById_Some [OF assms(2)] have i: "asInt4 i = Inr i" by (simp add: asInt4_ok)
  have own: "getClaimsForKhuwani ?db1 i = Inr []"
    by (simp add: getClaimsForKhuwani_def i)
  have other: "getClaimsForKhuwani ?db1 j = getClaimsForKhuwani db j" if "j \<noteq> i" for j
  proof -
    have "filter (\<lambda>c. khuwaniId c = j) (filter (\<lambda>c. khuwaniId c \<noteq> i) cs) =
        filter (\<lambda>c. khuwaniId c = j) cs" for cs
      using that by (induction cs) auto
    then have e: "filter (\<lambda>c. khuwaniId c = j) (claims ?db1) = filter (\<lambda>c. khuwaniId c = j) (claims db)"
      by simp
    show ?thesis
    proof (cases "asInt4 j")
      case (Inl err)
      then show ?thesis by (simp add: getClaimsForKhuwani_def)
    next
      case (Inr a)
      moreover from Inr have "a = j" by (simp add: asInt4_Inr)
      ultimately show ?thesis using e by (simp add: getClaimsForKhuwani_def)
    qed
  qed
  have k: "getKhuwaniById ?db1 i = Inr (Some k)"
    using assms(2) getKhuwaniById_same [of ?db1 db i] by simp
  show ?thesis
    unfolding r fst_conv using own other k by simp
qed

text \<open>C5, at the example: the reset removes Ahmed's claim and leaves the khuwani.\<close>

theorem reset_removes_only_claims_witness:
  "getKhuwaniById claimedDb 1 = Inr (Some demoKhuwani) \<and> organizerId demoKhuwani = 1 \<and>
   claims claimedDb = [ahmedClaim] \<and>
   resetRoute claimedDb (Some 1) 1 =
     (releasedDb, Response 200 True (Message ''Claims reset'')) \<and>
   getClaimsForKhuwani (fst (resetRoute claimedDb (Some 1) 1)) 1 = Inr [] \<and>
   getKhuwaniById (fst (resetRoute claimedDb (Some 1) 1)) 1 = Inr (Some demoKhuwani)"
proof -
  have k: "getKhuwaniById claimedDb 1 = Inr (Some demoKhuwani)"
    by (simp add: demo_defs getKhuwaniById_def engine_defs)
  have o: "organizerId demoKhuwani = 1" by (simp add: demoKhuwani_def)
  have c: "claims claimedDb = [ahmedClaim]" by (simp add: claimedDb_def)
  have d: "claimedDb\<lparr>claims := filter (\<lambda>c. khuwaniId c \<noteq> 1) (claims claimedDb)\<rparr> = releasedDb"
    by (simp add: demo_defs)
  have one: "(1::int) \<noteq> 0" by simp
  from reset_removes_only_claims [OF one k o, unfolded d] k o c show ?thesis by blast
qed

section \<open>A released slot can be claimed again\<close>

lemma claim_on_free_slot:
  assumes "getKhuwaniBySlug db sl = Inr (Some k)"
    and "1 \<le> q" and "q \<le> numQurans k" and "1 \<le> s" and "s \<le> 30"
    and "1 \<le> length name" and "length name \<le> 100"
    and "claimsOnSlot db (khuwani_id k, q, s) = []"
  shows "claimRoute db sl (Obj (JInt q) (JInt s) (JStr name)) =
     (if minInt4 \<le> khuwani_id k \<and> khuwani_id k \<le> maxInt4 \<and> q \<le> maxInt4 \<and> 0 \<notin> set name \<and>
         claims_seq db \<le> maxInt4
      then (db\<lparr>claims_seq := claims_seq db + 1,
               claims := claims db @ [\<lparr>claim_id = claims_seq db, khuwaniId = khuwani_id k,
                  quranNumber = q, siparaNumber = s, participantName = toWellFormed (trim name)\<rparr>]\<rparr>,
            Response 200 True (ClaimCreated \<lparr>claim_id = claims_seq db, khuwaniId = khuwani_id k,
                  quranNumber = q, siparaNumber = s, participantName = toWellFormed (trim name)\<rparr>))
      else (db, Response 500 False (Message ''Failed to claim sipara'')))"
proof -
  have parsed: "claimBodySchema (Obj (JInt q) (JInt s) (JStr name)) = Inr (q, s, trim name)"
    using assms(2,4-7) by (rule claimBodySchema_valid)
  from assms(8) have free: "\<not> (\<exists>c \<in> set (claims db).
      khuwaniId c = khuwani_id k \<and> quranNumber c = q \<and> siparaNumber c = s)"
    by (auto simp: claimsOnSlot_def filter_empty_conv slotOf_def)
  from assms(1) have "k \<in> set (khuwanies db)"
    by (simp add: getKhuwaniBySlug_Some)
  then have fk: "\<exists>k' \<in> set (khuwanies db). khuwani_id k' = khuwani_id k" by blast
  from assms(2,4,5) have qs: "minInt4 \<le> q" "asInt4 s = Inr s"
    by (simp_all add: asInt4_def minInt4_def maxInt4_def)
  let ?ok = "minInt4 \<le> khuwani_id k \<and> khuwani_id k \<le> maxInt4 \<and> q \<le> maxInt4 \<and> 0 \<notin> set name \<and>
         claims_seq db \<le> maxInt4"
  show ?thesis
  proof (cases ?ok)
    case True
    with free fk qs have "createClaim db (khuwani_id k) q s (trim name) =
       (db\<lparr>claims_seq := claims_seq db + 1,
           claims := claims db @ [\<lparr>claim_id = claims_seq db, khuwaniId = khuwani_id k,
              quranNumber = q, siparaNumber = s, participantName = toWellFormed (trim name)\<rparr>]\<rparr>,
        Inr \<lparr>claim_id = claims_seq db, khuwaniId = khuwani_id k,
              quranNumber = q, siparaNumber = s, participantName = toWellFormed (trim name)\<rparr>)"
      by (simp add: createClaim_def Let_def asInt4_ok asText_def zero_in_trim)
    with True assms(1,3) parsed show ?thesis by (simp add: claimRoute_def)
  next
    case False
    with qs have "\<exists>e. createClaim db (khuwani_id k) q s (trim name) = (db, Inl e) \<and> code e \<noteq> ''23505''"
      by (auto simp: createClaim_def Let_def asInt4_def asText_def zero_in_trim)
    then obtain e where "createClaim db (khuwani_id k) q s (trim name) = (db, Inl e)"
      and "code e \<noteq> ''23505''" by blast
    with False assms(1,3) parsed show ?thesis by (simp add: claimRoute_def)
  qed
qed

lemma unclaim_success:
  assumes "getKhuwaniBySlug db sl = Inr (Some k)"
    and "success (snd (unclaimRoute db sl (Obj (JInt q) (JInt s) (JStr name0))))"
  shows "fst (unclaimRoute db sl (Obj (JInt q) (JInt s) (JStr name0))) =
           db\<lparr>claims := filter (\<lambda>c. \<not> claimMatches (khuwani_id k) q s (toWellFormed (trim name0)) c) (claims db)\<rparr> \<and>
         filter (claimMatches (khuwani_id k) q s (toWellFormed (trim name0))) (claims db) \<noteq> []"
proof (cases "claimBodySchema (Obj (JInt q) (JInt s) (JStr name0))")
  case (Inl e)
  with assms show ?thesis by (simp add: unclaimRoute_def)
next
  case (Inr t)
  then have t: "t = (q, s, trim name0)" by (auto split: if_splits)
  show ?thesis
  proof (cases "deleteClaim db (khuwani_id k) q s (trim name0)")
    case (Inl err)
    with assms Inr t show ?thesis by (simp add: unclaimRoute_def)
  next
    case del: (Inr res)
    obtain d deleted where res: "res = (d, deleted)" by (cases res)
    from del res have "d = db\<lparr>claims := filter (\<lambda>c. \<not> claimMatches (khuwani_id k) q s
          (toWellFormed (trim name0)) c) (claims db)\<rparr>"
      and "deleted = (filter (claimMatches (khuwani_id k) q s (toWellFormed (trim name0))) (claims db) \<noteq> [])"
      by (simp_all add: deleteClaim_Inr)
    with assms Inr t del res show ?thesis
      by (auto simp: unclaimRoute_def split: if_splits)
  qed
qed

lemma slot_free_after_release:
  assumes "unique_claim db"
    and "filter (claimMatches kid q s p) (claims db) \<noteq> []"
  shows "claimsOnSlot (db\<lparr>claims := filter (\<lambda>c. \<not> claimMatches kid q s p c) (claims db)\<rparr>) (kid, q, s) = []"
proof -
  from assms(2) obtain c0 where c0: "c0 \<in> set (claims db)" "claimMatches kid q s p c0"
    by (auto simp: filter_empty_conv)
  then have s0: "slotOf c0 = (kid, q, s)" by (simp add: claimMatches_def slotOf_def)
  from assms(1) have d: "distinct (map slotOf (claims db))" by (simp add: unique_claim_def)
  have "claimMatches kid q s p c" if "c \<in> set (claims db)" "slotOf c = (kid, q, s)" for c
  proof -
    from d that(1) c0(1) that(2) s0 have "c = c0" by (intro distinct_map_eq [of slotOf]) simp_all
    with c0(2) show ?thesis by simp
  qed
  then show ?thesis by (auto simp: claimsOnSlot_def filter_empty_conv)
qed

lemma resetRoute_success:
  assumes "success (snd (resetRoute db sess i))"
  shows "fst (resetRoute db sess i) = db\<lparr>claims := filter (\<lambda>c. khuwaniId c \<noteq> i) (claims db)\<rparr>"
proof (cases "deleteAllClaimsForKhuwani db i")
  case (Inl err)
  with assms have False
    by (auto simp: resetRoute_def requireAuth_def split: option.splits if_splits sum.splits)
  then show ?thesis ..
next
  case (Inr d)
  then have "d = db\<lparr>claims := filter (\<lambda>c. khuwaniId c \<noteq> i) (claims db)\<rparr>"
    by (simp add: deleteAll_Inr)
  with assms Inr show ?thesis
    by (auto simp: resetRoute_def requireAuth_def split: option.splits if_splits sum.splits)
qed

lemma slot_free_after_reset:
  "claimsOnSlot (db\<lparr>claims := filter (\<lambda>c. khuwaniId c \<noteq> kid) (claims db)\<rparr>) (kid, q, s) = []"
  by (auto simp: claimsOnSlot_def filter_empty_conv slotOf_def)

text \<open>
  C6, as it is stated, fails: after a release that succeeded, a claim of the slot does not
  succeed with every name the schema accepts. Ahmed's claim of sipara 5 of Quran 1 is
  released; a claim of the slot under the name \<open>A\<close>, U+0000, \<open>B\<close>, of three units, is
  answered 500 and stores nothing.
\<close>

theorem released_slot_counterexample:
  "unclaimRoute claimedDb demoSlug (claimBody 1 5 ''Ahmed'') =
     (releasedDb, Response 200 True (Message ''Sipara released'')) \<and>
   claimsOnSlot releasedDb (1, 1, 5) = [] \<and>
   length nulName = 3 \<and>
   claimBodySchema (Obj (JInt 1) (JInt 5) (JStr nulName)) = Inr (1, 5, nulName) \<and>
   claimRoute releasedDb demoSlug (Obj (JInt 1) (JInt 5) (JStr nulName)) =
     (releasedDb, Response 500 False (Message ''Failed to claim sipara'')) \<and>
   claims releasedDb = []"
proof -
  have i: "khuwani_id demoKhuwani = 1" and n: "numQurans demoKhuwani = 1"
    by (simp_all add: demoKhuwani_def)
  have b: "claimBodySchema (Obj (JInt 1) (JInt 5) (JStr nulName)) = Inr (1, 5, nulName)"
    by (simp add: nulName_def trim_def isWhiteSpace_def)
  have c: "createClaim releasedDb 1 1 5 nulName = (releasedDb, Inl CharacterNotInRepertoire)"
    by (simp add: createClaim_def engine_defs nulName_def)
  have "claimRoute releasedDb demoSlug (Obj (JInt 1) (JInt 5) (JStr nulName)) =
     (releasedDb, Response 500 False (Message ''Failed to claim sipara''))"
    unfolding claimRoute_def releasedDb_slug b by (simp add: i n c)
  moreover have "claimsOnSlot releasedDb (1, 1, 5) = []" "claims releasedDb = []" "length nulName = 3"
    by (simp_all add: demo_defs claimsOnSlot_def nulName_def)
  ultimately show ?thesis using demo_release b by simp
qed

text \<open>
  C6, amended. In a state the routes reach, take a slot of a khuwani that exists (a Quran
  number from 1 to the khuwani's count, a sipara number from 1 to 30) and a name of 1 to
  100 units. After a release request for the slot that succeeded, and likewise after a
  reset of the khuwani that succeeded, the slot holds no claim. A claim request for it
  with the name is then answered 200 with the new claim, which is the one claim on the
  slot, when the name holds no U+0000 and the sequence of the keys has a value left;
  otherwise it is answered 500 and nothing changes.
\<close>

theorem released_slot_claimable:
  assumes "reachable db" and "getKhuwaniBySlug db sl = Inr (Some k)"
    and "1 \<le> q" and "q \<le> numQurans k" and "1 \<le> s" and "s \<le> 30"
    and "1 \<le> length name" and "length name \<le> 100"
  shows "\<forall>db1.
    (\<exists>name0. success (snd (unclaimRoute db sl (Obj (JInt q) (JInt s) (JStr name0)))) \<and>
              db1 = fst (unclaimRoute db sl (Obj (JInt q) (JInt s) (JStr name0)))) \<or>
    (\<exists>sess. success (snd (resetRoute db sess (khuwani_id k))) \<and>
             db1 = fst (resetRoute db sess (khuwani_id k))) \<longrightarrow>
    claimsOnSlot db1 (khuwani_id k, q, s) = [] \<and>
    (if 0 \<notin> set name \<and> claims_seq db \<le> maxInt4
     then snd (claimRoute db1 sl (Obj (JInt q) (JInt s) (JStr name))) =
            Response 200 True (ClaimCreated \<lparr>claim_id = claims_seq db, khuwaniId = khuwani_id k,
              quranNumber = q, siparaNumber = s, participantName = toWellFormed (trim name)\<rparr>) \<and>
          claimsOnSlot (fst (claimRoute db1 sl (Obj (JInt q) (JInt s) (JStr name))))
              (khuwani_id k, q, s) =
            [\<lparr>claim_id = claims_seq db, khuwaniId = khuwani_id k,
              quranNumber = q, siparaNumber = s, participantName = toWellFormed (trim name)\<rparr>]
     else claimRoute db1 sl (Obj (JInt q) (JInt s) (JStr name)) =
            (db1, Response 500 False (Message ''Failed to claim sipara'')))"
proof (intro allI impI)
  fix db1
  define claimed where "claimed = \<lparr>claim_id = claims_seq db, khuwaniId = khuwani_id k,
            quranNumber = q, siparaNumber = s, participantName = toWellFormed (trim name)\<rparr>"
  define body where "body = Obj (JInt q) (JInt s) (JStr name)"
  assume h: "(\<exists>name0. success (snd (unclaimRoute db sl (Obj (JInt q) (JInt s) (JStr name0)))) \<and>
              db1 = fst (unclaimRoute db sl (Obj (JInt q) (JInt s) (JStr name0)))) \<or>
    (\<exists>sess. success (snd (resetRoute db sess (khuwani_id k))) \<and>
             db1 = fst (resetRoute db sess (khuwani_id k)))"
  from assms(1) have wf: "wellFormed db" by (rule reachable_wellFormed)
  from assms(2) have kin: "k \<in> set (khuwanies db)" by (simp add: getKhuwaniBySlug_Some)
  from wellFormed_khuwani [OF wf kin] assms(4)
  have int4: "minInt4 \<le> khuwani_id k \<and> khuwani_id k \<le> maxInt4 \<and> q \<le> maxInt4" by simp
  from wf have u: "unique_claim db" by (simp add: wellFormed_def)
  have "claimsOnSlot db1 (khuwani_id k, q, s) = [] \<and> khuwanies db1 = khuwanies db \<and>
      claims_seq db1 = claims_seq db"
    using h
  proof (elim disjE exE conjE)
    fix name0
    assume "success (snd (unclaimRoute db sl (Obj (JInt q) (JInt s) (JStr name0))))"
      and "db1 = fst (unclaimRoute db sl (Obj (JInt q) (JInt s) (JStr name0)))"
    with unclaim_success [OF assms(2), of q s name0]
    have d: "db1 = db\<lparr>claims := filter (\<lambda>c. \<not> claimMatches (khuwani_id k) q s (toWellFormed (trim name0)) c) (claims db)\<rparr>"
      and m: "filter (claimMatches (khuwani_id k) q s (toWellFormed (trim name0))) (claims db) \<noteq> []"
      by simp_all
    from slot_free_after_release [OF u m] d have "claimsOnSlot db1 (khuwani_id k, q, s) = []"
      by simp
    moreover from d have "khuwanies db1 = khuwanies db" "claims_seq db1 = claims_seq db" by simp_all
    ultimately show ?thesis by simp
  next
    fix sess
    assume "success (snd (resetRoute db sess (khuwani_id k)))"
      and "db1 = fst (resetRoute db sess (khuwani_id k))"
    then have d: "db1 = db\<lparr>claims := filter (\<lambda>c. khuwaniId c \<noteq> khuwani_id k) (claims db)\<rparr>"
      by (simp add: resetRoute_success)
    then have "claimsOnSlot db1 (khuwani_id k, q, s) = []"
      by (simp add: slot_free_after_reset)
    moreover from d have "khuwanies db1 = khuwanies db" "claims_seq db1 = claims_seq db"
      by simp_all
    ultimately show ?thesis by simp
  qed
  then have free: "claimsOnSlot db1 (khuwani_id k, q, s) = []"
    and same: "khuwanies db1 = khuwanies db" "claims_seq db1 = claims_seq db"
    by simp_all
  from assms(2) getKhuwaniBySlug_same [OF same(1), of sl]
  have k1: "getKhuwaniBySlug db1 sl = Inr (Some k)"
    by simp
  note r = claim_on_free_slot [OF k1 assms(3-8) free, unfolded same(2), folded claimed_def body_def]
  have "if 0 \<notin> set name \<and> claims_seq db \<le> maxInt4
     then snd (claimRoute db1 sl body) = Response 200 True (ClaimCreated claimed) \<and>
          claimsOnSlot (fst (claimRoute db1 sl body)) (khuwani_id k, q, s) = [claimed]
     else claimRoute db1 sl body = (db1, Response 500 False (Message ''Failed to claim sipara''))"
  proof (cases "0 \<notin> set name \<and> claims_seq db \<le> maxInt4")
    case True
    with int4 r have c: "claimRoute db1 sl body =
        (db1\<lparr>claims_seq := claims_seq db + 1, claims := claims db1 @ [claimed]\<rparr>,
         Response 200 True (ClaimCreated claimed))"
      by simp
    from free have "filter (\<lambda>c. slotOf c = (khuwani_id k, q, s)) (claims db1) = []"
      by (simp add: claimsOnSlot_def)
    moreover have "slotOf claimed = (khuwani_id k, q, s)"
      by (simp add: claimed_def slotOf_def)
    ultimately have "claimsOnSlot (fst (claimRoute db1 sl body)) (khuwani_id k, q, s) = [claimed]"
      unfolding c by (simp add: claimsOnSlot_def)
    with True c show ?thesis by simp
  next
    case False
    with r have "claimRoute db1 sl body = (db1, Response 500 False (Message ''Failed to claim sipara''))"
      by auto
    with False show ?thesis by simp
  qed
  with free show "claimsOnSlot db1 (khuwani_id k, q, s) = [] \<and>
    (if 0 \<notin> set name \<and> claims_seq db \<le> maxInt4
     then snd (claimRoute db1 sl (Obj (JInt q) (JInt s) (JStr name))) =
            Response 200 True (ClaimCreated \<lparr>claim_id = claims_seq db, khuwaniId = khuwani_id k,
              quranNumber = q, siparaNumber = s, participantName = toWellFormed (trim name)\<rparr>) \<and>
          claimsOnSlot (fst (claimRoute db1 sl (Obj (JInt q) (JInt s) (JStr name))))
              (khuwani_id k, q, s) =
            [\<lparr>claim_id = claims_seq db, khuwaniId = khuwani_id k,
              quranNumber = q, siparaNumber = s, participantName = toWellFormed (trim name)\<rparr>]
     else claimRoute db1 sl (Obj (JInt q) (JInt s) (JStr name)) =
            (db1, Response 500 False (Message ''Failed to claim sipara'')))"
    unfolding claimed_def body_def by simp
qed

text \<open>
  C6 amended, at the example: after Ahmed's claim is released, or the khuwani is reset,
  Fatima's claim of the same slot succeeds.
\<close>

theorem released_slot_claimable_witness:
  "reachable claimedDb \<and> getKhuwaniBySlug claimedDb demoSlug = Inr (Some demoKhuwani) \<and>
   numQurans demoKhuwani = 1 \<and>
   unclaimRoute claimedDb demoSlug (claimBody 1 5 ''Ahmed'') =
     (releasedDb, Response 200 True (Message ''Sipara released'')) \<and>
   snd (claimRoute releasedDb demoSlug (claimBody 1 5 ''Fatima'')) =
     Response 200 True (ClaimCreated \<lparr>claim_id = 2, khuwaniId = 1, quranNumber = 1,
       siparaNumber = 5, participantName = str ''Fatima''\<rparr>) \<and>
   resetRoute claimedDb (Some 1) 1 =
     (releasedDb, Response 200 True (Message ''Claims reset''))"
proof -
  note k = claimedDb_slug
  have n: "numQurans demoKhuwani = 1" and i: "khuwani_id demoKhuwani = 1"
    by (simp_all add: demoKhuwani_def)
  have sq: "claims_seq claimedDb = 2" by (simp add: claimedDb_def)
  have t: "toWellFormed (trim (str ''Fatima'')) = str ''Fatima''"
    by (simp add: str_def trim_def isWhiteSpace_def isHighSurrogate_def isLowSurrogate_def)
  have len: "1 \<le> length (str ''Fatima'')" "length (str ''Fatima'') \<le> 100"
    by (simp_all add: str_def)
  have acc: "0 \<notin> set (str ''Fatima'') \<and> (2::int) \<le> maxInt4"
    by (simp add: str_def maxInt4_def)
  note rel = demo_release
  have res: "resetRoute claimedDb (Some 1) 1 =
     (releasedDb, Response 200 True (Message ''Claims reset''))"
    by (simp add: demo_defs resetRoute_def requireAuth_def getKhuwaniById_def
        deleteAllClaimsForKhuwani_def engine_defs)
  have q: "(1::int) \<le> 1" "(1::int) \<le> numQurans demoKhuwani" "(1::int) \<le> 5" "(5::int) \<le> 30"
    by (simp_all add: n)
  note T = released_slot_claimable [OF reachable_claimedDb k q len, unfolded i sq t,
      rule_format, of releasedDb]
  have "\<exists>name0. success (snd (unclaimRoute claimedDb demoSlug (Obj (JInt 1) (JInt 5) (JStr name0)))) \<and>
      releasedDb = fst (unclaimRoute claimedDb demoSlug (Obj (JInt 1) (JInt 5) (JStr name0)))"
    using rel by (intro exI [of _ "str ''Ahmed''"]) (simp add: claimBody_def)
  with T acc
  have "snd (claimRoute releasedDb demoSlug (claimBody 1 5 ''Fatima'')) =
     Response 200 True (ClaimCreated \<lparr>claim_id = 2, khuwaniId = 1, quranNumber = 1,
       siparaNumber = 5, participantName = str ''Fatima''\<rparr>)"
    unfolding claimBody_def by simp
  with reachable_claimedDb k n rel res show ?thesis by simp
qed

section \<open>The progress figures\<close>

lemma perQuran_foldl:
  "(case foldl (\<lambda>m c. m(quranNumber c \<mapsto> (case m (quranNumber c) of None \<Rightarrow> 0 | Some n \<Rightarrow> n) + 1)) m cs q of
      None \<Rightarrow> 0 | Some n \<Rightarrow> n) =
   (case m q of None \<Rightarrow> 0 | Some n \<Rightarrow> n) + length (filter (\<lambda>c. quranNumber c = q) cs)"
  by (induction cs arbitrary: m) (auto split: option.splits)

lemma perQuranShown_count:
  "perQuranShown k cs q = length (filter (\<lambda>c. quranNumber c = q) cs)"
  unfolding perQuranShown_def perQuranClaims_def perQuran_foldl by simp

lemma ulpRound_up: "0 < x \<Longrightarrow> x < 2 ^ 52 \<Longrightarrow> ulpRound x u = ulpRound (x * 2) (u / 2)"
  by (subst ulpRound.simps) simp

lemma ulpRound_down: "2 ^ 53 \<le> x \<Longrightarrow> ulpRound x u = ulpRound (x / 2) (u * 2)"
  by (subst ulpRound.simps) simp

lemma ulpRound_done: "2 ^ 52 \<le> x \<Longrightarrow> x < 2 ^ 53 \<Longrightarrow> ulpRound x u = of_int (roundEven x) * u"
  by (subst ulpRound.simps) simp

lemma ulpRound_zero: "ulpRound 0 u = 0"
  by (subst ulpRound.simps) simp

lemma floor_rat_numeral: "\<lfloor>(numeral a / numeral b :: rat)\<rfloor> = numeral a div numeral b"
  using floor_divide_of_int_eq [of "numeral a" "numeral b", where ?'a = rat] by simp

lemmas double_eval = floor_rat_numeral fmul_def fdiv_def double_def ulpRound_up ulpRound_down ulpRound_done ulpRound_zero
  roundEven_def Math_round_def Let_def

lemma roundEven_near: "\<bar>of_int (roundEven y) - y\<bar> \<le> 1 / 2"
proof -
  have "of_int \<lfloor>y\<rfloor> \<le> y" and "y < of_int \<lfloor>y\<rfloor> + 1" by linarith+
  then show ?thesis by (auto simp: roundEven_def Let_def)
qed

lemma ulpRound_error:
  "0 < x \<Longrightarrow> 0 < u \<Longrightarrow> \<bar>ulpRound x u - x * u\<bar> \<le> x * u / 2 ^ 53"
proof (induction x u rule: ulpRound.induct)
  case (1 x ulp)
  show ?case
  proof (cases "2 ^ 53 \<le> x")
    case True
    with 1 have "\<bar>ulpRound (x / 2) (ulp * 2) - x / 2 * (ulp * 2)\<bar> \<le> x / 2 * (ulp * 2) / 2 ^ 53"
      by simp
    moreover from True have "ulpRound x ulp = ulpRound (x / 2) (ulp * 2)" by (rule ulpRound_down)
    ultimately show ?thesis by simp
  next
    case notbig: False
    show ?thesis
    proof (cases "x < 2 ^ 52")
      case True
      with 1 notbig have "\<bar>ulpRound (x * 2) (ulp / 2) - x * 2 * (ulp / 2)\<bar> \<le> x * 2 * (ulp / 2) / 2 ^ 53"
        by simp
      moreover from True 1 have "ulpRound x ulp = ulpRound (x * 2) (ulp / 2)" by (simp add: ulpRound_up)
      ultimately show ?thesis by simp
    next
      case False
      with notbig have r: "ulpRound x ulp = of_int (roundEven x) * ulp" by (simp add: ulpRound_done)
      have "\<bar>of_int (roundEven x) * ulp - x * ulp\<bar> = \<bar>of_int (roundEven x) - x\<bar> * ulp"
        using 1(4) by (simp add: abs_mult left_diff_distrib [symmetric])
      also have "\<dots> \<le> 1 / 2 * ulp"
        using roundEven_near [of x] 1(4) by (intro mult_right_mono) simp_all
      also have "\<dots> \<le> x / 2 ^ 53 * ulp"
      proof -
        from False have "(2 ^ 52 :: rat) \<le> x" by simp
        then have "(1 / 2 :: rat) \<le> x / 2 ^ 53" by simp
        with 1(4) show ?thesis by (intro mult_right_mono) simp_all
      qed
      finally show ?thesis using r by simp
    qed
  qed
qed

lemma double_error: "0 \<le> x \<Longrightarrow> \<bar>double x - x\<bar> \<le> x / 2 ^ 53"
proof (cases "x = 0")
  case True
  then show ?thesis by (simp add: double_def ulpRound_zero)
next
  case False
  assume "0 \<le> x"
  with False have "0 < x" by simp
  from ulpRound_error [OF this, of 1] show ?thesis by (simp add: double_def)
qed

lemma percent_error:
  assumes "0 \<le> c" and "c \<le> t" and "0 < t"
  shows "\<bar>fmul (fdiv (of_int c) (of_int t)) 100 - 100 * of_int c / of_int t\<bar> \<le> 300 / 2 ^ 53"
proof -
  define e :: rat where "e = 1 / 2 ^ 53"
  define x :: rat where "x = of_int c / of_int t"
  define q where "q = double x"
  define p where "p = double (q * 100)"
  have e: "0 < e" "e \<le> 1" by (simp_all add: e_def)
  from assms have x: "0 \<le> x" "x \<le> 1" by (simp_all add: x_def)
  from double_error [OF x(1)] have q: "\<bar>q - x\<bar> \<le> x * e" by (simp add: q_def e_def)
  have xe: "x * e \<le> x" using e(2) x(1) by (rule mult_left_le)
  from q xe have q0: "0 \<le> q" and q1: "q \<le> x + x * e" by linarith+
  from q0 have "0 \<le> q * 100" by simp
  from double_error [OF this] have p: "\<bar>p - q * 100\<bar> \<le> q * 100 * e" by (simp add: p_def e_def)
  have "x * e \<le> e" using x e by (simp add: mult_le_cancel_right1)
  with q1 x(2) e have qb: "q \<le> 2" by linarith
  then have "q * 100 * e \<le> 200 * e" using e by simp
  with p have p2: "\<bar>p - q * 100\<bar> \<le> 200 * e" by linarith
  from q \<open>x * e \<le> e\<close> have "\<bar>q - x\<bar> \<le> e" by linarith
  then have "\<bar>q * 100 - x * 100\<bar> \<le> 100 * e" by (simp add: abs_le_iff)
  with p2 have "\<bar>p - x * 100\<bar> \<le> 300 * e" by linarith
  moreover have "x * 100 = 100 * of_int c / of_int t" by (simp add: x_def)
  moreover have "300 * e = 300 / 2 ^ 53" by (simp add: e_def)
  ultimately have "\<bar>p - 100 * of_int c / of_int t\<bar> \<le> 300 / 2 ^ 53" by (simp only:)
  then show ?thesis by (simp only: p_def q_def x_def fmul_def fdiv_def)
qed

lemma tie_gap:
  fixes t :: int
  assumes "0 < t" and "t \<le> 2 ^ 40"
  shows "(300 / 2 ^ 53 :: rat) < 1 / of_int (2 * t)"
proof -
  from assms(2) have "(of_int t :: rat) \<le> of_int (2 ^ 40)" by (simp only: of_int_le_iff)
  then have "(of_int t :: rat) \<le> 1099511627776" by simp
  then have "300 * (2 * of_int t) < (2 ^ 53 :: rat)" by simp
  moreover have "(0 :: rat) < 2 * of_int t" using assms(1) by simp
  ultimately have "(300 / 2 ^ 53 :: rat) < 1 / (2 * of_int t)"
    by (simp add: field_simps)
  then show ?thesis by simp
qed

lemma quotient_split:
  fixes a b :: int
  assumes "0 < b" and "a mod b \<noteq> 0"
  shows "(of_int (a div b) :: rat) + 1 / of_int b \<le> of_int a / of_int b"
    and "(of_int a :: rat) / of_int b \<le> of_int (a div b) + 1 - 1 / of_int b"
proof -
  define r where "r = a mod b"
  from assms(1) have "0 \<le> r" and "r < b" by (simp_all add: r_def)
  with assms(2) have r: "1 \<le> r" "r \<le> b - 1" by (simp_all add: r_def)
  have "a = a div b * b + r" by (simp only: r_def div_mult_mod_eq)
  then have "(of_int a :: rat) = of_int (a div b) * of_int b + of_int r"
    by (metis of_int_add of_int_mult)
  moreover have B: "(0 :: rat) < of_int b" using assms(1) by simp
  ultimately have e: "(of_int a :: rat) / of_int b = of_int (a div b) + of_int r / of_int b"
    by (simp add: field_simps)
  from r have "(of_int 1 :: rat) \<le> of_int r" and "(of_int r :: rat) \<le> of_int (b - 1)"
    by (simp_all only: of_int_le_iff)
  then have "(1 :: rat) \<le> of_int r" and "(of_int r :: rat) \<le> of_int b - 1"
    by simp_all
  then have "(1 :: rat) / of_int b \<le> of_int r / of_int b"
    and "(of_int r :: rat) / of_int b \<le> (of_int b - 1) / of_int b"
    using B by (simp_all add: divide_right_mono)
  moreover have "((of_int b - 1) / of_int b :: rat) = 1 - 1 / of_int b"
    using B by (simp add: field_simps)
  ultimately show "(of_int (a div b) :: rat) + 1 / of_int b \<le> of_int a / of_int b"
    and "(of_int a :: rat) / of_int b \<le> of_int (a div b) + 1 - 1 / of_int b"
    unfolding e by linarith+
qed

lemma percent_exact:
  assumes "0 \<le> c" and "c \<le> t" and "0 < t" and "t \<le> 2 ^ 40"
    and "(200 * c + t) mod (2 * t) \<noteq> 0"
  shows "Math_round (fmul (fdiv (of_int c) (of_int t)) 100) = (200 * c + t) div (2 * t)"
proof -
  define p where "p = fmul (fdiv (of_int c) (of_int t)) 100"
  define K where "K = (200 * c + t) div (2 * t)"
  define g :: rat where "g = 1 / of_int (2 * t)"
  define y :: rat where "y = of_int (200 * c + t) / of_int (2 * t)"
  from assms(3) have t2: "0 < 2 * t" by simp
  have T: "(0::rat) < of_int t" using assms(3) by simp
  have x: "(100 * of_int c / of_int t + 1 / 2 :: rat) = y"
    using T by (simp add: y_def field_simps)
  from quotient_split [OF t2 assms(5)] have lo: "of_int K + g \<le> y" and hi: "y \<le> of_int K + 1 - g"
    by (simp_all only: K_def g_def y_def)
  from tie_gap [OF assms(3,4)] have small: "300 / 2 ^ 53 < g" by (simp only: g_def)
  from percent_error [OF assms(1-3)] have "\<bar>p - 100 * of_int c / of_int t\<bar> \<le> 300 / 2 ^ 53"
    by (simp only: p_def)
  with small have "\<bar>p - 100 * of_int c / of_int t\<bar> < g" by linarith
  then have near: "\<bar>(p + 1 / 2) - y\<bar> < g" unfolding x [symmetric] by simp
  from near lo hi have "of_int K \<le> p + 1 / 2" and "p + 1 / 2 < of_int K + 1"
    by linarith+
  then have "\<lfloor>p + 1 / 2\<rfloor> = K" by (intro floor_unique) simp_all
  then show ?thesis by (simp only: Math_round_def p_def K_def)
qed

lemma percent_halfway:
  assumes "0 \<le> c" and "c \<le> t" and "0 < t" and "t \<le> 2 ^ 40"
    and "(200 * c + t) mod (2 * t) = 0"
  shows "Math_round (fmul (fdiv (of_int c) (of_int t)) 100) = (200 * c + t) div (2 * t) \<or>
         Math_round (fmul (fdiv (of_int c) (of_int t)) 100) = (200 * c + t) div (2 * t) - 1"
proof -
  define p where "p = fmul (fdiv (of_int c) (of_int t)) 100"
  define K where "K = (200 * c + t) div (2 * t)"
  define g :: rat where "g = 1 / of_int (2 * t)"
  define y :: rat where "y = of_int (200 * c + t) / of_int (2 * t)"
  have T: "(0::rat) < of_int t" using assms(3) by simp
  have x: "(100 * of_int c / of_int t + 1 / 2 :: rat) = y"
    using T by (simp add: y_def field_simps)
  from assms(5) have "200 * c + t = K * (2 * t)"
    unfolding K_def by (metis div_mult_mod_eq add.right_neutral)
  then have "(of_int (200 * c + t) :: rat) = of_int K * of_int (2 * t)"
    by (metis of_int_mult)
  moreover have "(0::rat) < of_int (2 * t)" using assms(3) by simp
  ultimately have yK: "y = of_int K" by (simp add: y_def)
  from assms(3) have "(1::rat) \<le> of_int (2 * t)"
    by (metis of_int_1 of_int_le_iff add_le_cancel_left int_one_le_iff_zero_less mult_2 order_trans
        le_add_same_cancel1 less_imp_le)
  with T have g1: "g \<le> 1" by (simp add: g_def)
  from tie_gap [OF assms(3,4)] have small: "300 / 2 ^ 53 < g" by (simp only: g_def)
  from percent_error [OF assms(1-3)] have "\<bar>p - 100 * of_int c / of_int t\<bar> \<le> 300 / 2 ^ 53"
    by (simp only: p_def)
  with small have "\<bar>p - 100 * of_int c / of_int t\<bar> < g" by linarith
  then have near: "\<bar>(p + 1 / 2) - y\<bar> < g" unfolding x [symmetric] by simp
  with g1 yK have lo: "of_int K - 1 < p + 1 / 2" and hi: "p + 1 / 2 < of_int K + 1"
    by linarith+
  show ?thesis
  proof (cases "of_int K \<le> p + 1 / 2")
    case True
    with hi have "\<lfloor>p + 1 / 2\<rfloor> = K" by (intro floor_unique) simp_all
    then show ?thesis by (simp only: Math_round_def p_def K_def) simp
  next
    case False
    with lo have "\<lfloor>p + 1 / 2\<rfloor> = K - 1" by (intro floor_unique) simp_all
    then show ?thesis by (simp only: Math_round_def p_def K_def) simp
  qed
qed

lemma roundedPercent_div:
  assumes "0 < t"
  shows "roundedPercent c t = (200 * c + t) div (2 * t)"
proof -
  have T: "(0::rat) < of_int t" using assms by simp
  then have "(of_int c / of_int t * 100 + 1 / 2 :: rat) = of_int (200 * c + t) / of_int (2 * t)"
    by (simp add: field_simps)
  then show ?thesis
    unfolding roundedPercent_def Math_round_def by (simp only: floor_divide_of_int_eq)
qed

lemma floor_half: "\<lfloor>(1 / 2 :: rat)\<rfloor> = 0"
  by (rule floor_unique) simp_all

lemma percent_zero: "Math_round (fmul (fdiv 0 t) 100) = 0"
  by (simp add: double_eval floor_half)

text \<open>
  Where the exact percentage lies exactly between two integers the product can fall below
  it: 69 claims of 4 Qurans are 57.5 per cent, the floating-point product is below 57.5,
  and the dashboard shows 57.
\<close>

lemma progress_below_half:
  assumes "numQurans k = 4" and "length cs = 69"
  shows "progressPercent k cs = 57"
  using assms by (simp add: progressPercent_def progress_def totalSiparas_def double_eval)

lemma claims69_slots: "distinct (map slotOf claims69)"
proof -
  have "inj_on (\<lambda>n. (1::int, int n div 30 + 1, int n mod 30 + 1)) (set [0..<69])"
  proof (rule inj_onI)
    fix n m :: nat
    assume "(1::int, int n div 30 + 1, int n mod 30 + 1) = (1, int m div 30 + 1, int m mod 30 + 1)"
    then have "int n div 30 = int m div 30" and "int n mod 30 = int m mod 30" by simp_all
    then have "int n = int m" by (metis div_mult_mod_eq)
    then show "n = m" by simp
  qed
  moreover have "map slotOf claims69 = map (\<lambda>n. (1::int, int n div 30 + 1, int n mod 30 + 1)) [0..<69]"
    by (simp add: claims69_def slotOf_def claimOf_def)
  ultimately show ?thesis by (simp only: distinct_map distinct_upt)
qed

text \<open>
  C7, as it is stated, fails: the percentage of the dashboard is not always the rounded
  percentage. The khuwani has 4 Qurans and 69 claims, on 69 slots; 69 of 120 is 57.5 per
  cent, which rounds to 58, and the dashboard shows 57.
\<close>

theorem progress_halfway_counterexample:
  "numQurans fourQurans = 4 \<and> totalSiparas fourQurans = 120 \<and> length claims69 = 69 \<and>
   distinct (map slotOf claims69) \<and>
   roundedPercent 69 120 = 58 \<and>
   progressPercent fourQurans claims69 = 57"
proof -
  have n: "numQurans fourQurans = 4" by (simp add: fourQurans_def)
  have l: "length claims69 = 69" by (simp add: claims69_def)
  have t: "totalSiparas fourQurans = 120" by (simp add: totalSiparas_def n)
  have r: "roundedPercent 69 120 = 58" by (simp add: roundedPercent_div)
  from n l have "progressPercent fourQurans claims69 = 57" by (rule progress_below_half)
  with n l t r claims69_slots show ?thesis by simp
qed

text \<open>
  C7, amended. For a khuwani with one Quran at least and any claims: the count the
  dashboard shows for a Quran, and the count of the participant view, is the number of
  claims with that Quran number, each out of 30. The percentage of a Quran with at most 30
  claims is the exact percentage \<open>round(count / 30 * 100)\<close>. The percentage of the
  dashboard, for a khuwani of at most 2147483647 Qurans with no more claims than siparas,
  is the exact percentage \<open>round(count / (Qurans * 30) * 100)\<close> unless the unrounded
  percentage lies exactly halfway between two integers; there it is the exact percentage
  or one less. A Quran with no claim is at 0 per cent, and so is a khuwani with none.
\<close>

theorem progress_figures:
  assumes "1 \<le> numQurans k"
  shows "perQuranShown k cs q = length (filter (\<lambda>c. quranNumber c = q) cs) \<and>
         claimedInQuran cs q = length (filter (\<lambda>c. quranNumber c = q) cs) \<and>
         (claimedInQuran cs q \<le> 30 \<longrightarrow>
            quranPercent cs q = roundedPercent (int (claimedInQuran cs q)) 30) \<and>
         (numQurans k \<le> maxInt4 \<and> int (length cs) \<le> totalSiparas k \<longrightarrow>
            (\<not> exactlyHalfway (int (length cs)) (totalSiparas k) \<longrightarrow>
               progressPercent k cs = roundedPercent (int (length cs)) (totalSiparas k)) \<and>
            (exactlyHalfway (int (length cs)) (totalSiparas k) \<longrightarrow>
               progressPercent k cs = roundedPercent (int (length cs)) (totalSiparas k) \<or>
               progressPercent k cs = roundedPercent (int (length cs)) (totalSiparas k) - 1)) \<and>
         (claimedInQuran cs q = 0 \<longrightarrow> quranPercent cs q = 0) \<and>
         (cs = [] \<longrightarrow> progressPercent k cs = 0)"
proof -
  define t where "t = totalSiparas k"
  define c where "c = int (length cs)"
  define d where "d = int (claimedInQuran cs q)"
  from assms have pos: "0 < t" by (simp add: t_def totalSiparas_def)
  have p1: "progressPercent k cs = Math_round (fmul (fdiv (of_int c) (of_int t)) 100)"
    using pos by (simp add: progressPercent_def progress_def t_def c_def)
  have q1: "quranPercent cs q = Math_round (fmul (fdiv (of_int d) (of_int 30)) 100)"
    by (simp add: quranPercent_def d_def)
  have c0: "0 \<le> c" and d0: "0 \<le> d" by (simp_all add: c_def d_def)
  have small: "t \<le> 2 ^ 40" if "numQurans k \<le> maxInt4"
  proof -
    from that have "t \<le> 30 * 2147483647" by (simp add: t_def totalSiparas_def maxInt4_def)
    then show ?thesis by simp
  qed
  have p2: "progressPercent k cs = roundedPercent c t"
    if "numQurans k \<le> maxInt4" and le: "c \<le> t" and tie: "\<not> exactlyHalfway c t"
  proof -
    from tie have "(200 * c + t) mod (2 * t) \<noteq> 0" by (simp add: exactlyHalfway_def)
    from percent_exact [OF c0 le pos small [OF that(1)] this] show ?thesis
      by (simp only: p1 roundedPercent_div [OF pos])
  qed
  have p3: "progressPercent k cs = roundedPercent c t \<or> progressPercent k cs = roundedPercent c t - 1"
    if "numQurans k \<le> maxInt4" and le: "c \<le> t" and tie: "exactlyHalfway c t"
  proof -
    from tie have "(200 * c + t) mod (2 * t) = 0" by (simp add: exactlyHalfway_def)
    from percent_halfway [OF c0 le pos small [OF that(1)] this] show ?thesis
      by (simp only: p1 roundedPercent_div [OF pos])
  qed
  have q2: "quranPercent cs q = roundedPercent d 30" if le: "d \<le> 30"
  proof -
    have "200 * d + 30 = 10 + (10 * d + 1) * 20" by simp
    then have "(200 * d + 30) mod 20 = 10" by (simp only: mod_mult_self1) simp
    moreover have "(200 * d + 30) mod 60 mod 20 = (200 * d + 30) mod 20"
      by (rule mod_mod_cancel) simp
    ultimately have "(200 * d + 30) mod (2 * 30) \<noteq> 0" by auto
    from percent_exact [OF d0 le _ _ this] have
      "Math_round (fmul (fdiv (of_int d) (of_int 30)) 100) = (200 * d + 30) div (2 * 30)"
      by simp
    moreover have "roundedPercent d 30 = (200 * d + 30) div (2 * 30)"
      by (rule roundedPercent_div) simp
    ultimately show ?thesis by (simp only: q1)
  qed
  have z1: "claimedInQuran cs q = 0 \<longrightarrow> quranPercent cs q = 0"
    by (simp add: quranPercent_def percent_zero)
  have z2: "cs = [] \<longrightarrow> progressPercent k cs = 0"
  proof
    assume "cs = []"
    then have "(of_int c :: rat) = 0" by (simp add: c_def)
    then show "progressPercent k cs = 0" unfolding p1 by (simp only: percent_zero)
  qed
  have dle: "d \<le> 30" if "claimedInQuran cs q \<le> 30" using that by (simp add: d_def)
  from perQuranShown_count [of k cs q] p2 p3 q2 dle z1 z2 show ?thesis
    unfolding t_def c_def d_def by (simp add: claimedInQuran_def)
qed

text \<open>
  C7 amended, at the example of the specification: two Qurans and the claims (1,1), (1,2),
  (2,1) give 5 per cent overall and 7 per cent for Quran 1.
\<close>

theorem progress_figures_witness:
  "numQurans twoQurans = 2 \<and> length threeClaims = 3 \<and>
   perQuranShown twoQurans threeClaims 1 = 2 \<and> perQuranShown twoQurans threeClaims 2 = 1 \<and>
   claimedInQuran threeClaims 1 = 2 \<and>
   roundedPercent 3 60 = 5 \<and> progressPercent twoQurans threeClaims = 5 \<and>
   roundedPercent 2 30 = 7 \<and> quranPercent threeClaims 1 = 7 \<and>
   claimedInQuran [] 1 = 0 \<and> quranPercent [] 1 = 0 \<and> progressPercent twoQurans [] = 0"
proof -
  have n: "numQurans twoQurans = 2" by (simp add: twoQurans_def)
  then have one: "1 \<le> numQurans twoQurans" by simp
  have l: "length threeClaims = 3" by (simp add: threeClaims_def)
  have t: "totalSiparas twoQurans = 60" by (simp add: totalSiparas_def n)
  have f1: "length (filter (\<lambda>c. quranNumber c = 1) threeClaims) = 2"
    and f2: "length (filter (\<lambda>c. quranNumber c = 2) threeClaims) = 1"
    by (simp_all add: threeClaims_def claimOf_def)
  have r1: "roundedPercent 3 60 = 5" and r2: "roundedPercent 2 30 = 7"
    by (simp_all add: roundedPercent_div)
  note T1 = progress_figures [OF one, of threeClaims 1]
  note T2 = progress_figures [OF one, of threeClaims 2]
  note T3 = progress_figures [OF one, of "[]" 1]
  from T1 f1 have a1: "perQuranShown twoQurans threeClaims 1 = 2" by simp
  from T1 f1 have a2: "claimedInQuran threeClaims 1 = 2" by simp
  have "numQurans twoQurans \<le> maxInt4 \<and> int (length threeClaims) \<le> totalSiparas twoQurans"
    and "\<not> exactlyHalfway (int (length threeClaims)) (totalSiparas twoQurans)"
    by (simp_all add: n l t maxInt4_def exactlyHalfway_def)
  with T1 have "progressPercent twoQurans threeClaims =
      roundedPercent (int (length threeClaims)) (totalSiparas twoQurans)"
    by blast
  with l t r1 have a3: "progressPercent twoQurans threeClaims = 5" by simp
  from a2 have "claimedInQuran threeClaims 1 \<le> 30" by simp
  with T1 have "quranPercent threeClaims 1 = roundedPercent (int (claimedInQuran threeClaims 1)) 30"
    by blast
  with a2 r2 have b: "quranPercent threeClaims 1 = 7" by simp
  from T2 f2 have c: "perQuranShown twoQurans threeClaims 2 = 1" by simp
  from T3 have d1: "claimedInQuran [] 1 = 0" by simp
  from T3 d1 have d2: "quranPercent [] 1 = 0" by blast
  from T3 have d3: "progressPercent twoQurans [] = 0" by blast
  from n l a1 a2 a3 b c d1 d2 d3 r1 r2 show ?thesis by simp
qed

section \<open>Names of white space\<close>

lemma trim_all_whitespace:
  assumes "\<forall>c \<in> set name. isWhiteSpace c"
  shows "trim name = []"
proof -
  from assms have e: "dropWhile isWhiteSpace name = []" by (induction name) auto
  show ?thesis unfolding trim_def e by simp
qed

text \<open>
  C8 does not hold of the code. The schema checks the length of the name as sent and trims
  it afterwards, so a name of 1 to 100 units that are all white space passes, and on a free
  slot the claim is stored with the empty name and answered 200. (The insert is refused,
  and the answer is 500, only when the key of the khuwani or the Quran number is no
  integer of 32 bits, which no khuwani of a database the routes reach allows, or when the
  sequence of the keys has no value left.)
\<close>

theorem whitespace_name_stored:
  assumes "getKhuwaniBySlug db sl = Inr (Some k)"
    and "1 \<le> q" and "q \<le> numQurans k" and "1 \<le> s" and "s \<le> 30"
    and "claimsOnSlot db (khuwani_id k, q, s) = []"
    and "1 \<le> length name" and "length name \<le> 100"
    and "\<forall>c \<in> set name. isWhiteSpace c"
  shows "claimRoute db sl (Obj (JInt q) (JInt s) (JStr name)) =
     (if minInt4 \<le> khuwani_id k \<and> khuwani_id k \<le> maxInt4 \<and> q \<le> maxInt4 \<and>
         claims_seq db \<le> maxInt4
      then (db\<lparr>claims_seq := claims_seq db + 1,
               claims := claims db @ [\<lparr>claim_id = claims_seq db, khuwaniId = khuwani_id k,
                  quranNumber = q, siparaNumber = s, participantName = []\<rparr>]\<rparr>,
            Response 200 True (ClaimCreated \<lparr>claim_id = claims_seq db, khuwaniId = khuwani_id k,
                  quranNumber = q, siparaNumber = s, participantName = []\<rparr>))
      else (db, Response 500 False (Message ''Failed to claim sipara'')))"
proof -
  have "\<not> isWhiteSpace 0" by (simp add: isWhiteSpace_def)
  with assms(9) have "0 \<notin> set name" by blast
  with claim_on_free_slot [OF assms(1-5,7,8,6)] trim_all_whitespace [OF assms(9)]
  show ?thesis by simp
qed

text \<open>C8, at the example: a claim request that names three spaces.\<close>

theorem whitespace_name_stored_witness:
  "getKhuwaniBySlug demoDb demoSlug = Inr (Some demoKhuwani) \<and>
   claimsOnSlot demoDb (1, 1, 5) = [] \<and>
   length (str ''   '') = 3 \<and>
   filter (\<lambda>c. \<not> isWhiteSpace c) (str ''   '') = [] \<and>
   claimRoute demoDb demoSlug (claimBody 1 5 ''   '') =
     (demoDb\<lparr>claims_seq := 2,
         claims := [\<lparr>claim_id = 1, khuwaniId = 1, quranNumber = 1, siparaNumber = 5,
                     participantName = []\<rparr>]\<rparr>,
      Response 200 True (ClaimCreated \<lparr>claim_id = 1, khuwaniId = 1, quranNumber = 1,
                     siparaNumber = 5, participantName = []\<rparr>))"
proof -
  note k = demoDb_slug
  have n: "numQurans demoKhuwani = 1" and i: "khuwani_id demoKhuwani = 1"
    by (simp_all add: demoKhuwani_def)
  have free: "claimsOnSlot demoDb (khuwani_id demoKhuwani, 1, 5) = []"
    by (simp add: demo_defs claimsOnSlot_def)
  have len: "1 \<le> length (str ''   '')" "length (str ''   '') \<le> 100" "length (str ''   '') = 3"
    by (simp_all add: str_def)
  have ws: "\<forall>c \<in> set (str ''   ''). isWhiteSpace c"
    by (simp add: str_def isWhiteSpace_def)
  have ws': "filter (\<lambda>c. \<not> isWhiteSpace c) (str ''   '') = []"
    by (simp add: str_def isWhiteSpace_def)
  have q: "(1::int) \<le> 1" "(1::int) \<le> numQurans demoKhuwani" "(1::int) \<le> 5" "(5::int) \<le> 30"
    by (simp_all add: n)
  have e: "claims demoDb = []" "claims_seq demoDb = 1" by (simp_all add: demoDb_def)
  have r: "minInt4 \<le> (1::int) \<and> (1::int) \<le> maxInt4" by (simp add: minInt4_def maxInt4_def)
  from whitespace_name_stored [OF k q free len(1,2) ws] k free len(3) ws' i e r
  show ?thesis by (simp add: claimBody_def)
qed

section \<open>Failed logins\<close>

lemma login_failed_cases:
  assumes "\<not> success (snd (loginRoute isEmail compare db sess body))"
  shows "(\<exists>e. loginSchema isEmail body = Inl e \<and>
            loginRoute isEmail compare db sess body = (sess, Response 400 False (formMessage e))) \<or>
         (\<exists>em pw. loginSchema isEmail body = Inr (em, pw) \<and> 0 \<in> set em \<and>
            loginRoute isEmail compare db sess body =
              (sess, Response 500 False (Message ''Login failed''))) \<or>
         (\<exists>em pw. loginSchema isEmail body = Inr (em, pw) \<and> 0 \<notin> set em \<and>
            loginRoute isEmail compare db sess body =
              (sess, Response 401 False (Message ''Invalid email or password'')))"
proof (cases "loginSchema isEmail body")
  case (Inl e)
  then show ?thesis by (simp add: loginRoute_def)
next
  case (Inr t)
  obtain em pw where t: "t = (em, pw)" by (cases t)
  show ?thesis
  proof (cases "0 \<in> set em")
    case True
    then have "getOrganizerByEmail db em = Inl CharacterNotInRepertoire"
      by (simp add: getOrganizerByEmail_def asText_def)
    with Inr t True show ?thesis by (simp add: loginRoute_def)
  next
    case False
    then obtain r where "getOrganizerByEmail db em = Inr r"
      by (simp add: getOrganizerByEmail_def asText_def)
    with assms Inr t False show ?thesis
      by (auto simp: loginRoute_def split: option.splits if_splits)
  qed
qed

text \<open>
  C10. A login with a well-formed body is answered 401 with the message
  ``Invalid email or password'', the session unchanged, both when no organizer has the
  e-mail address and when one has it and the password check fails. More generally the
  answer of a failed login is a function of the request alone: two failed logins with the
  same body get the same answer and session, whatever the two databases and password checks.
\<close>

theorem login_failure_uniform:
  "(\<forall>em pw. loginSchema isEmail body = Inr (em, pw) \<longrightarrow>
      (getOrganizerByEmail db em = Inr None \<longrightarrow>
         loginRoute isEmail compare db sess body =
           (sess, Response 401 False (Message ''Invalid email or password''))) \<and>
      (\<forall>org. getOrganizerByEmail db em = Inr (Some org) \<and> \<not> compare pw (passwordHash org) \<longrightarrow>
         loginRoute isEmail compare db sess body =
           (sess, Response 401 False (Message ''Invalid email or password'')))) \<and>
   (\<forall>db' compare'.
      \<not> success (snd (loginRoute isEmail compare db sess body)) \<and>
      \<not> success (snd (loginRoute isEmail compare' db' sess body)) \<longrightarrow>
      loginRoute isEmail compare db sess body = loginRoute isEmail compare' db' sess body)"
proof (intro conjI allI impI)
  fix em pw
  assume "loginSchema isEmail body = Inr (em, pw)" and "getOrganizerByEmail db em = Inr None"
  then show "loginRoute isEmail compare db sess body =
           (sess, Response 401 False (Message ''Invalid email or password''))"
    by (simp add: loginRoute_def)
next
  fix em pw org
  assume "loginSchema isEmail body = Inr (em, pw)"
    and "getOrganizerByEmail db em = Inr (Some org) \<and> \<not> compare pw (passwordHash org)"
  then show "loginRoute isEmail compare db sess body =
           (sess, Response 401 False (Message ''Invalid email or password''))"
    by (simp add: loginRoute_def)
next
  fix db' compare'
  assume h: "\<not> success (snd (loginRoute isEmail compare db sess body)) \<and>
      \<not> success (snd (loginRoute isEmail compare' db' sess body))"
  from h login_failed_cases [of isEmail compare db sess body]
    login_failed_cases [of isEmail compare' db' sess body]
  show "loginRoute isEmail compare db sess body = loginRoute isEmail compare' db' sess body"
    by auto
qed

text \<open>
  C10, at the example: an unknown address and a wrong password for a known address get the
  same answer; the right password logs in.
\<close>

theorem login_failure_uniform_witness:
  "loginSchema (\<lambda>e. True) (JStr (str ''a@b.c''), JStr (str ''wrong1'')) = Inr (str ''a@b.c'', str ''wrong1'') \<and>
   loginSchema (\<lambda>e. True) (JStr (str ''x@y.z''), JStr (str ''secret'')) = Inr (str ''x@y.z'', str ''secret'') \<and>
   getOrganizerByEmail demoDb (str ''x@y.z'') = Inr None \<and>
   loginRoute (\<lambda>e. True) (=) demoDb None (JStr (str ''x@y.z''), JStr (str ''secret'')) =
     (None, Response 401 False (Message ''Invalid email or password'')) \<and>
   loginRoute (\<lambda>e. True) (=) demoDb None (JStr (str ''a@b.c''), JStr (str ''wrong1'')) =
     (None, Response 401 False (Message ''Invalid email or password'')) \<and>
   loginRoute (\<lambda>e. True) (=) demoDb None (JStr (str ''a@b.c''), JStr (str ''secret'')) =
     (Some 1, Response 200 True (Message ''Logged in''))"
proof -
  have p1: "loginSchema (\<lambda>e. True) (JStr (str ''a@b.c''), JStr (str ''wrong1'')) = Inr (str ''a@b.c'', str ''wrong1'')"
    and p2: "loginSchema (\<lambda>e. True) (JStr (str ''x@y.z''), JStr (str ''secret'')) = Inr (str ''x@y.z'', str ''secret'')"
    by (simp_all add: loginSchema_def str_def)
  have none: "getOrganizerByEmail demoDb (str ''x@y.z'') = Inr None"
    by (simp add: demo_defs getOrganizerByEmail_def engine_defs)
  have some: "getOrganizerByEmail demoDb (str ''a@b.c'') =
      Inr (Some \<lparr>organizer_id = 1, email = str ''a@b.c'', passwordHash = str ''secret''\<rparr>) \<and>
      \<not> (str ''wrong1'' = passwordHash \<lparr>organizer_id = 1, email = str ''a@b.c'', passwordHash = str ''secret''\<rparr>)"
    by (simp add: demo_defs getOrganizerByEmail_def engine_defs)
  have ok: "loginRoute (\<lambda>e. True) (=) demoDb None (JStr (str ''a@b.c''), JStr (str ''secret'')) =
     (Some 1, Response 200 True (Message ''Logged in''))"
    by (simp add: loginRoute_def loginSchema_def demo_defs getOrganizerByEmail_def engine_defs)
  note T1 = login_failure_uniform [of "\<lambda>e. True" "(JStr (str ''x@y.z''), JStr (str ''secret''))" demoDb "(=)" None,
      THEN conjunct1, rule_format, OF p2, THEN conjunct1, rule_format, OF none]
  note T2 = login_failure_uniform [of "\<lambda>e. True" "(JStr (str ''a@b.c''), JStr (str ''wrong1''))" demoDb "(=)" None,
      THEN conjunct1, rule_format, OF p1, THEN conjunct2, rule_format, OF some]
  from p1 p2 none T1 T2 ok show ?thesis by blast
qed

section \<open>The shape of a slug\<close>

lemmas slug_defs = generateSlug_def slugBase_def toLowerCase_def lowerUnit_def
     stripOthers_def isSlugAlnum_def isWhiteSpace_def isHyphen_def hyphen_def stripEnds_def substring_def Let_def
     specSlugBase_def specTrimHyphens_def specStrip_def str_def isRendering_def

text \<open>
  C9, as it is stated, fails. When the random number is 0.5 its base-36 string is \<open>0.i\<close> and
  the suffix is the one character \<open>i\<close>, not five. And \<open>generateSlug\<close> also collapses runs of
  hyphens, which the wording does not: for the name \<open>a--b\<close> the wording gives \<open>a--b\<close> and
  the code \<open>a-b\<close>. And it keeps every white space, not the space alone: for \<open>a\<close>, a
  tabulator, \<open>b\<close> the wording gives \<open>ab\<close> and the code \<open>a-b\<close>.
\<close>

theorem generateSlug_counterexample:
  "isRendering (str ''0.i'') \<and>
   generateSlug (str ''Haji  Abdul'') (str ''0.i'') = str ''haji-abdul-i'' \<and>
   specSlugBase (str ''Haji  Abdul'') = str ''haji-abdul'' \<and>
   isRendering (str ''0.x7f2a9'') \<and>
   generateSlug (str ''a--b'') (str ''0.x7f2a9'') = str ''a-b-x7f2a'' \<and>
   specSlugBase (str ''a--b'') = str ''a--b'' \<and>
   generateSlug [97, 9, 98] (str ''0.x7f2a9'') = str ''a-b-x7f2a'' \<and>
   specSlugBase [97, 9, 98] = str ''ab''"
  by (simp add: slug_defs)

lemma set_replaceRuns: "set (replaceRuns P xs) \<subseteq> insert hyphen {x \<in> set xs. \<not> P x}"
proof (induction P xs rule: replaceRuns.induct)
  case (1 P)
  show ?case by simp
next
  case (2 P c cs)
  show ?case
  proof (cases "P c")
    case True
    with 2 have "set (replaceRuns P (dropWhile P cs)) \<subseteq> insert hyphen {x \<in> set (dropWhile P cs). \<not> P x}"
      by simp
    moreover have "set (dropWhile P cs) \<subseteq> set cs" by (auto dest: set_dropWhileD)
    ultimately show ?thesis using True by auto
  next
    case False
    with 2 show ?thesis by auto
  qed
qed

lemma hyphenPair_Cons: "\<not> isHyphen c \<Longrightarrow> hyphenPair (c # xs) = hyphenPair xs"
  by (cases xs) simp_all

lemma replaceRuns_no_pair: "\<not> hyphenPair (replaceRuns isHyphen xs)"
proof (induction "isHyphen" xs rule: replaceRuns.induct)
  case 1
  show ?case by simp
next
  case (2 c cs)
  show ?case
  proof (cases "isHyphen c")
    case True
    show ?thesis
    proof (cases "dropWhile isHyphen cs")
      case Nil
      with True show ?thesis by (simp add: Nil)
    next
      case (Cons y ys)
      then have y: "\<not> isHyphen y" using hd_dropWhile [of isHyphen cs] by auto
      from 2 True Cons have "\<not> hyphenPair (replaceRuns isHyphen (y # ys))" by simp
      with True Cons y show ?thesis by simp
    qed
  next
    case False
    with 2 show ?thesis by (simp add: hyphenPair_Cons)
  qed
qed

lemma hyphenPair_tl: "\<not> hyphenPair (c # cs) \<Longrightarrow> \<not> hyphenPair cs"
  by (cases cs) auto

lemma hyphenPair_butlast: "\<not> hyphenPair xs \<Longrightarrow> \<not> hyphenPair (butlast xs)"
  by (induction xs rule: hyphenPair.induct) (auto split: if_splits)

lemma last_butlast_no_hyphen:
  "\<not> hyphenPair xs \<Longrightarrow> butlast xs \<noteq> [] \<Longrightarrow> isHyphen (last xs) \<Longrightarrow> \<not> isHyphen (last (butlast xs))"
  by (induction xs rule: hyphenPair.induct) (auto split: if_splits)

lemma stripEnds_no_pair:
  assumes "\<not> hyphenPair s"
  shows "\<not> hyphenPair (stripEnds s)"
proof -
  define s1 where "s1 = (case s of [] \<Rightarrow> [] | c # cs \<Rightarrow> if isHyphen c then cs else c # cs)"
  have t: "stripEnds s = (if s1 \<noteq> [] \<and> isHyphen (last s1) then butlast s1 else s1)"
    by (simp add: stripEnds_def s1_def)
  from assms have "\<not> hyphenPair s1"
    by (auto simp: s1_def split: list.splits dest: hyphenPair_tl)
  then show ?thesis unfolding t by (simp add: hyphenPair_butlast)
qed

lemma stripEnds_ends:
  assumes "\<not> hyphenPair s" and "stripEnds s \<noteq> []"
  shows "\<not> isHyphen (hd (stripEnds s)) \<and> \<not> isHyphen (last (stripEnds s))"
proof -
  define s1 where "s1 = (case s of [] \<Rightarrow> [] | c # cs \<Rightarrow> if isHyphen c then cs else c # cs)"
  have t: "stripEnds s = (if s1 \<noteq> [] \<and> isHyphen (last s1) then butlast s1 else s1)"
    by (simp add: stripEnds_def s1_def)
  from assms(1) have np: "\<not> hyphenPair s1"
    by (auto simp: s1_def split: list.splits dest: hyphenPair_tl)
  from assms(1) have h: "s1 \<noteq> [] \<Longrightarrow> \<not> isHyphen (hd s1)"
    by (cases s; cases "tl s") (auto simp: s1_def split: if_splits)
  show ?thesis
  proof (cases "s1 \<noteq> [] \<and> isHyphen (last s1)")
    case True
    with t assms(2) have b: "stripEnds s = butlast s1" "butlast s1 \<noteq> []" by simp_all
    then have "hd (butlast s1) = hd s1" by (cases s1) (auto split: if_splits)
    with h True b last_butlast_no_hyphen [OF np] show ?thesis by simp
  next
    case False
    with t assms(2) h show ?thesis by auto
  qed
qed

lemma filter_dropWhile_disjoint:
  "(\<And>x. P x \<Longrightarrow> \<not> Q x) \<Longrightarrow> filter Q (dropWhile P xs) = filter Q xs"
  by (induction xs) auto

lemma alnum_replaceRuns:
  assumes "\<And>x. P x \<Longrightarrow> \<not> isSlugAlnum x"
  shows "filter isSlugAlnum (replaceRuns P xs) = filter isSlugAlnum xs"
  using assms
proof (induction P xs rule: replaceRuns.induct)
  case (1 P)
  show ?case by simp
next
  case (2 P c cs)
  have nh: "\<not> isSlugAlnum hyphen" by (simp add: isSlugAlnum_def hyphen_def)
  show ?case
  proof (cases "P c")
    case True
    with 2 have "filter isSlugAlnum (replaceRuns P (dropWhile P cs)) = filter isSlugAlnum (dropWhile P cs)"
      by simp
    also have "\<dots> = filter isSlugAlnum cs" using "2.prems" by (rule filter_dropWhile_disjoint)
    finally show ?thesis using True nh "2.prems" by simp
  next
    case False
    with 2 show ?thesis by simp
  qed
qed

lemma alnum_stripEnds: "filter isSlugAlnum (stripEnds s) = filter isSlugAlnum s"
proof -
  have nh: "isHyphen c \<Longrightarrow> \<not> isSlugAlnum c" for c
    by (simp add: isSlugAlnum_def isHyphen_def hyphen_def)
  define s1 where "s1 = (case s of [] \<Rightarrow> [] | c # cs \<Rightarrow> if isHyphen c then cs else c # cs)"
  have t: "stripEnds s = (if s1 \<noteq> [] \<and> isHyphen (last s1) then butlast s1 else s1)"
    by (simp add: stripEnds_def s1_def)
  have a: "filter isSlugAlnum s1 = filter isSlugAlnum s"
    by (auto simp: s1_def nh split: list.splits)
  have "filter isSlugAlnum (butlast s1) = filter isSlugAlnum s1" if "s1 \<noteq> []" "isHyphen (last s1)"
  proof -
    from that(1) have "s1 = butlast s1 @ [last s1]" by simp
    then have "filter isSlugAlnum s1 = filter isSlugAlnum (butlast s1 @ [last s1])" by simp
    also have "\<dots> = filter isSlugAlnum (butlast s1)" using that(2) nh by simp
    finally show ?thesis by simp
  qed
  with a show ?thesis unfolding t by simp
qed

lemma alnum_slugBase: "filter isSlugAlnum (slugBase name) = filter isSlugAlnum (toLowerCase name)"
proof -
  have ws: "isWhiteSpace c \<Longrightarrow> \<not> isSlugAlnum c" for c
    by (auto simp: isSlugAlnum_def isWhiteSpace_def)
  have hy: "isHyphen c \<Longrightarrow> \<not> isSlugAlnum c" for c
    by (simp add: isSlugAlnum_def isHyphen_def hyphen_def)
  have "filter isSlugAlnum (stripOthers s) = filter isSlugAlnum s" for s
    by (induction s) (auto simp: stripOthers_def)
  then show ?thesis
    by (simp add: slugBase_def alnum_stripEnds alnum_replaceRuns [OF ws] alnum_replaceRuns [OF hy])
qed

lemma set_slugBase: "c \<in> set (slugBase name) \<Longrightarrow> isSlugAlnum c \<or> isHyphen c"
proof -
  assume c: "c \<in> set (slugBase name)"
  let ?a = "stripOthers (toLowerCase name)"
  let ?b = "replaceRuns isWhiteSpace ?a"
  let ?c = "replaceRuns isHyphen ?b"
  have "set (stripEnds s) \<subseteq> set s" for s
    by (auto simp: stripEnds_def Let_def split: list.splits if_splits dest: in_set_butlastD)
  with c have "c \<in> set ?c" by (auto simp: slugBase_def)
  with set_replaceRuns [of isHyphen ?b] have "c = hyphen \<or> c \<in> set ?b" by auto
  with set_replaceRuns [of isWhiteSpace ?a] have "c = hyphen \<or> (c \<in> set ?a \<and> \<not> isWhiteSpace c)"
    by auto
  then show ?thesis by (auto simp: stripOthers_def isHyphen_def)
qed

lemma set_substring: "set (substring i j s) \<subseteq> set (drop i s)"
  by (auto simp: substring_def dest: in_set_takeD)

lemma dropWhile_dropWhile_weaker:
  "(\<And>x. P x \<Longrightarrow> Q x) \<Longrightarrow> dropWhile Q (dropWhile P xs) = dropWhile Q xs"
  by (induction xs) auto

lemma dropHyphens_replaceSpaces:
  "dropWhile isHyphen (replaceRuns isWhiteSpace t) =
   replaceRuns isWhiteSpace (dropWhile isSeparator t)"
proof (induction isWhiteSpace t rule: replaceRuns.induct)
  case 1
  show ?case by simp
next
  case (2 c cs)
  have h: "isHyphen hyphen" by (simp add: isHyphen_def)
  show ?case
  proof (cases "isWhiteSpace c")
    case True
    have "dropWhile isSeparator (dropWhile isWhiteSpace cs) = dropWhile isSeparator cs"
      by (rule dropWhile_dropWhile_weaker) (simp add: isSeparator_def)
    with 2 True h show ?thesis by (simp add: isSeparator_def)
  next
    case False
    with 2 show ?thesis by (simp add: isSeparator_def)
  qed
qed

lemma replaceRuns_twice:
  "replaceRuns isHyphen (replaceRuns isWhiteSpace s) = replaceRuns isSeparator s"
proof (induction isSeparator s rule: replaceRuns.induct)
  case 1
  show ?case by simp
next
  case (2 c cs)
  have h: "isHyphen hyphen" by (simp add: isHyphen_def)
  show ?case
  proof (cases "isSeparator c")
    case sep: True
    with 2 have IH: "replaceRuns isHyphen (replaceRuns isWhiteSpace (dropWhile isSeparator cs)) =
        replaceRuns isSeparator (dropWhile isSeparator cs)" by simp
    show ?thesis
    proof (cases "isWhiteSpace c")
      case True
      have "dropWhile isSeparator (dropWhile isWhiteSpace cs) = dropWhile isSeparator cs"
        by (rule dropWhile_dropWhile_weaker) (simp add: isSeparator_def)
      with True sep h IH show ?thesis by (simp add: dropHyphens_replaceSpaces)
    next
      case False
      with sep have "isHyphen c" by (simp add: isSeparator_def)
      with False sep IH show ?thesis by (simp add: dropHyphens_replaceSpaces)
    qed
  next
    case False
    with 2 show ?thesis by (simp add: isSeparator_def)
  qed
qed

lemma replaceRuns_word:
  "replaceRuns isSeparator xs =
   takeWhile (\<lambda>x. \<not> isSeparator x) xs @ replaceRuns isSeparator (dropWhile (\<lambda>x. \<not> isSeparator x) xs)"
  by (induction xs) auto

lemma replaceRuns_Nil: "replaceRuns P u = [] \<longleftrightarrow> u = []"
  by (cases u) auto

lemma slugWords_Nil: "slugWords s = [] \<longleftrightarrow> dropWhile isSeparator s = []"
  by (induction s rule: slugWords.induct) auto

lemma words_joined:
  "(let X = replaceRuns isSeparator (dropWhile isSeparator s)
    in if X \<noteq> [] \<and> isHyphen (last X) then butlast X else X) = joinHyphen (slugWords s)"
proof (induction s rule: slugWords.induct)
  case 1
  show ?case by simp
next
  case (2 c cs)
  show ?case
  proof (cases "isSeparator c")
    case True
    with 2 show ?thesis by simp
  next
    case False
    define w where "w = takeWhile (\<lambda>x. \<not> isSeparator x) (c # cs)"
    define rest where "rest = dropWhile (\<lambda>x. \<not> isSeparator x) cs"
    define X where "X = replaceRuns isSeparator (dropWhile isSeparator rest)"
    from False have w: "w = c # takeWhile (\<lambda>x. \<not> isSeparator x) cs" by (simp add: w_def)
    from w have "last w \<in> set w" by simp
    moreover have "\<forall>x \<in> set w. \<not> isSeparator x"
      unfolding w_def by (auto dest: set_takeWhileD)
    ultimately have "\<not> isSeparator (last w)" by blast
    then have lw: "\<not> isHyphen (last w)" by (simp add: isSeparator_def)
    from False have words: "slugWords (c # cs) = w # slugWords rest"
      by (simp add: w_def rest_def)
    from 2(2) [OF False] have IH: "(if X \<noteq> [] \<and> isHyphen (last X) then butlast X else X) =
        joinHyphen (slugWords rest)"
      unfolding X_def rest_def Let_def .
    have whole: "replaceRuns isSeparator (dropWhile isSeparator (c # cs)) =
        w @ replaceRuns isSeparator rest"
      using False replaceRuns_word [of "c # cs"] by (simp add: w_def rest_def)
    show ?thesis
    proof (cases rest)
      case Nil
      with whole words lw w show ?thesis by (simp add: Let_def)
    next
      case (Cons d ds)
      then have "isSeparator d" using hd_dropWhile [of "\<lambda>x. \<not> isSeparator x" cs]
        by (auto simp: rest_def)
      with Cons have r: "replaceRuns isSeparator rest = hyphen # X"
        by (simp add: X_def)
      have e: "X = [] \<longleftrightarrow> slugWords rest = []"
        by (simp add: X_def replaceRuns_Nil slugWords_Nil)
      show ?thesis
      proof (cases "X = []")
        case True
        with e have "slugWords rest = []" by simp
        with whole r True words w show ?thesis by (simp add: Let_def isHyphen_def)
      next
        case False
        with e obtain v vs where v: "slugWords rest = v # vs" by (cases "slugWords rest") auto
        from False have "(if w @ hyphen # X \<noteq> [] \<and> isHyphen (last (w @ hyphen # X))
            then butlast (w @ hyphen # X) else w @ hyphen # X) =
            w @ hyphen # (if X \<noteq> [] \<and> isHyphen (last X) then butlast X else X)"
          by (simp add: butlast_append)
        with IH whole r words v show ?thesis by (simp add: Let_def)
      qed
    qed
  qed
qed

lemma stripHead_replaceRuns:
  "(case replaceRuns isSeparator s of [] \<Rightarrow> [] | c # cs \<Rightarrow> if isHyphen c then cs else c # cs) =
   replaceRuns isSeparator (dropWhile isSeparator s)"
proof (cases s)
  case Nil
  then show ?thesis by simp
next
  case (Cons c cs)
  have h: "isHyphen hyphen" by (simp add: isHyphen_def)
  show ?thesis
  proof (cases "isSeparator c")
    case True
    with Cons h show ?thesis by simp
  next
    case False
    then have "\<not> isHyphen c" by (simp add: isSeparator_def)
    with Cons False show ?thesis by simp
  qed
qed

lemma slugBase_words: "slugBase name = joinHyphen (slugWords (stripOthers (toLowerCase name)))"
  unfolding slugBase_def replaceRuns_twice stripEnds_def stripHead_replaceRuns
  using words_joined [of "stripOthers (toLowerCase name)"] by (simp add: Let_def)

text \<open>
  C9, amended. \<open>generateSlug\<close> returns the base of the slug, a hyphen, and the characters at
  the positions 2 to 6 of the base-36 string of the random number. The base is the name
  lower-cased, with the characters outside a-z, 0-9, white space and hyphen stripped, each
  run of white space replaced by a hyphen, then each run of hyphens replaced by one, then
  the hyphen at the start and the one at the end deleted. That is: the base is the words
  of the stripped lower-cased name, joined by single hyphens; it has the letters and digits
  of the lower-cased name, in their order, and otherwise hyphens only, never two side by
  side and none at either end. The suffix has 5 characters whenever the string of the
  random number has 7 or more, and base-36 digits only.
\<close>

theorem generateSlug_shape:
  "generateSlug name r = slugBase name @ [hyphen] @ substring 2 7 r \<and>
   slugBase name = joinHyphen (slugWords (stripOthers (toLowerCase name))) \<and>
   (\<forall>c \<in> set (slugBase name). isSlugAlnum c \<or> isHyphen c) \<and>
   filter isSlugAlnum (slugBase name) = filter isSlugAlnum (toLowerCase name) \<and>
   \<not> hyphenPair (slugBase name) \<and>
   (slugBase name \<noteq> [] \<longrightarrow>
      \<not> isHyphen (hd (slugBase name)) \<and> \<not> isHyphen (last (slugBase name))) \<and>
   length (substring 2 7 r) = min 5 (length r - 2) \<and>
   (7 \<le> length r \<longrightarrow> length (substring 2 7 r) = 5) \<and>
   (isRendering r \<longrightarrow> (\<forall>c \<in> set (substring 2 7 r). isSlugAlnum c))"
proof -
  have np: "\<not> hyphenPair (replaceRuns isHyphen (replaceRuns isWhiteSpace (stripOthers (toLowerCase name))))"
    by (rule replaceRuns_no_pair)
  have a: "generateSlug name r = slugBase name @ [hyphen] @ substring 2 7 r"
    by (simp add: generateSlug_def)
  have b: "\<forall>c \<in> set (slugBase name). isSlugAlnum c \<or> isHyphen c"
    using set_slugBase by blast
  have c: "\<not> hyphenPair (slugBase name)"
    unfolding slugBase_def using np by (rule stripEnds_no_pair)
  have d: "slugBase name \<noteq> [] \<longrightarrow>
      \<not> isHyphen (hd (slugBase name)) \<and> \<not> isHyphen (last (slugBase name))"
    unfolding slugBase_def using stripEnds_ends [OF np] by blast
  have e: "length (substring 2 7 r) = min 5 (length r - 2)"
    by (simp add: substring_def)
  have f: "isRendering r \<longrightarrow> (\<forall>c \<in> set (substring 2 7 r). isSlugAlnum c)"
  proof
    assume "isRendering r"
    then have "\<forall>c \<in> set (drop 2 r). isSlugAlnum c"
      by (auto simp: isRendering_def str_def list_all_iff)
    with set_substring [of 2 7 r] show "\<forall>c \<in> set (substring 2 7 r). isSlugAlnum c" by blast
  qed
  from a slugBase_words [of name] b alnum_slugBase [of name] c d e f show ?thesis by simp
qed

text \<open>C9 amended, at the example of the specification.\<close>

theorem generateSlug_shape_witness:
  "isRendering (str ''0.x7f2a9'') \<and> 7 \<le> length (str ''0.x7f2a9'') \<and>
   slugWords (stripOthers (toLowerCase (str ''Haji  Abdul -- Rehman!''))) =
     [str ''haji'', str ''abdul'', str ''rehman''] \<and>
   slugBase (str ''Haji  Abdul -- Rehman!'') = str ''haji-abdul-rehman'' \<and>
   substring 2 7 (str ''0.x7f2a9'') = str ''x7f2a'' \<and>
   generateSlug (str ''Haji  Abdul -- Rehman!'') (str ''0.x7f2a9'') = str ''haji-abdul-rehman-x7f2a'' \<and>
   length (substring 2 7 (str ''0.x7f2a9'')) = 5"
proof -
  have r: "isRendering (str ''0.x7f2a9'')" and l: "7 \<le> length (str ''0.x7f2a9'')"
    by (simp_all add: slug_defs)
  have w: "slugWords (stripOthers (toLowerCase (str ''Haji  Abdul -- Rehman!''))) =
     [str ''haji'', str ''abdul'', str ''rehman'']"
    by (simp add: slug_defs isSeparator_def)
  from generateSlug_shape [of "str ''Haji  Abdul -- Rehman!''" "str ''0.x7f2a9''"] w
  have b: "slugBase (str ''Haji  Abdul -- Rehman!'') = str ''haji-abdul-rehman''"
    by (simp add: str_def hyphen_def)
  have s: "substring 2 7 (str ''0.x7f2a9'') = str ''x7f2a''"
    by (simp add: slug_defs)
  note T = generateSlug_shape [of "str ''Haji  Abdul -- Rehman!''" "str ''0.x7f2a9''"]
  from T b s have g: "generateSlug (str ''Haji  Abdul -- Rehman!'') (str ''0.x7f2a9'') =
      str ''haji-abdul-rehman-x7f2a''"
    by (simp add: str_def hyphen_def)
  from T l have "length (substring 2 7 (str ''0.x7f2a9'')) = 5" by blast
  with r l w b s g show ?thesis by simp
qed

end
